theory Spec2Isabelle
  imports Main
begin

section \<open>JavaScript values and the object store\<close>

text \<open>
  The options processor of \<^verbatim>\<open>lib/src/commands/OptionsProcessor.ts\<close> rewrites a
  configuration object in place. Objects are shared by reference (the parent snapshot is a
  shallow \<^verbatim>\<open>clone\<close>), so the model keeps an explicit store: a value is a primitive or a
  reference into a list of objects, and an address is an index of that list.

  Scope of the value model: numbers are integers (no fractions, no NaN), strings are lists
  of characters, functions and symbols are not values. A plain object is its list of own
  enumerable properties in enumeration order; property names that are canonical array
  indices (which an engine enumerates first) occur in plain objects only when the code
  itself creates them. An array is its list of elements together with the named
  properties that have been attached to it.
\<close>

type_synonym addr = nat

datatype jsval = Undefined | Null | Bool bool | Num int | Str string | Ref addr

datatype obj =
    Object "(string \<times> jsval) list"
  | Array "jsval list" "(string \<times> jsval) list"

type_synonym heap = "obj list"

text \<open>The key that \<^verbatim>\<open>forEach\<close> hands to its callback: a property name for a plain
  object, a number for an array or an array-like collection.\<close>

datatype kv = KStr string | KNum nat

text \<open>The failures the code can raise. Class bodies are strict code, so creating a
  property on a primitive is a TypeError as well; the two TypeErrors are kept apart.
  \<open>RangeError\<close> is the overflow of the call stack by a recursion that is too deep.\<close>

datatype error = NullishAccess | PrimitiveAssign | RangeError

fun truthy :: "jsval \<Rightarrow> bool" where
  "truthy Undefined = False"
| "truthy Null = False"
| "truthy (Bool b) = b"
| "truthy (Num n) = (n \<noteq> 0)"
| "truthy (Str s) = (s \<noteq> [])"
| "truthy (Ref a) = True"

fun nullish :: "jsval \<Rightarrow> bool" where
  "nullish Undefined = True"
| "nullish Null = True"
| "nullish v = False"

text \<open>\<^verbatim>\<open>a ?? b\<close>\<close>

definition coalesce :: "jsval \<Rightarrow> jsval \<Rightarrow> jsval" where
  "coalesce v d = (if nullish v then d else v)"

subsection \<open>Numbers as strings\<close>

definition digitChar :: "nat \<Rightarrow> char" where
  "digitChar d = ''0123456789'' ! d"

fun showNat :: "nat \<Rightarrow> string" where
  "showNat n = (if n < 10 then [digitChar n] else showNat (n div 10) @ [digitChar (n mod 10)])"

declare showNat.simps [simp del]

text \<open>\<^verbatim>\<open>toString(key)\<close>, as lodash's \<^verbatim>\<open>endsWith\<close> and a template literal apply it.\<close>

fun keyName :: "kv \<Rightarrow> string" where
  "keyName (KStr s) = s"
| "keyName (KNum n) = showNat n"

text \<open>lodash \<^verbatim>\<open>endsWith(string, target)\<close>\<close>

definition endsWith :: "string \<Rightarrow> string \<Rightarrow> bool" where
  "endsWith s t = (length t \<le> length s \<and> drop (length s - length t) s = t)"

subsection \<open>Properties\<close>

fun lookupProp :: "(string \<times> jsval) list \<Rightarrow> string \<Rightarrow> jsval" where
  "lookupProp [] k = Undefined"
| "lookupProp ((k', v) # ps) k = (if k' = k then v else lookupProp ps k)"

fun hasProp :: "(string \<times> jsval) list \<Rightarrow> string \<Rightarrow> bool" where
  "hasProp [] k = False"
| "hasProp ((k', v) # ps) k = (k' = k \<or> hasProp ps k)"

text \<open>Assignment to a property: an existing property keeps its place, a new one is
  enumerated last.\<close>

fun assignProp :: "(string \<times> jsval) list \<Rightarrow> string \<Rightarrow> jsval \<Rightarrow> (string \<times> jsval) list" where
  "assignProp [] k v = [(k, v)]"
| "assignProp ((k', v') # ps) k v =
     (if k' = k then (k, v) # ps else (k', v') # assignProp ps k v)"

text \<open>\<^verbatim>\<open>o[key]\<close> on an object of the store. Reading an array beyond its length gives
  \<^verbatim>\<open>undefined\<close>.\<close>

fun getOwn :: "obj \<Rightarrow> kv \<Rightarrow> jsval" where
  "getOwn (Object ps) k = lookupProp ps (keyName k)"
| "getOwn (Array es xs) (KNum i) = (if i < length es then es ! i else Undefined)"
| "getOwn (Array es xs) (KStr s) = lookupProp xs s"

text \<open>\<^verbatim>\<open>o[key] = v\<close>. Writing an array beyond its length extends it.\<close>

fun setOwn :: "obj \<Rightarrow> kv \<Rightarrow> jsval \<Rightarrow> obj" where
  "setOwn (Object ps) k v = Object (assignProp ps (keyName k) v)"
| "setOwn (Array es xs) (KNum i) v =
     (if i < length es then Array (es[i := v]) xs
      else Array (es @ replicate (i - length es) Undefined @ [v]) xs)"
| "setOwn (Array es xs) (KStr s) v = Array es (assignProp xs s v)"

definition look :: "heap \<Rightarrow> addr \<Rightarrow> obj" where
  "look h a = (if a < length h then h ! a else Object [])"

definition slot :: "heap \<Rightarrow> addr \<Rightarrow> kv \<Rightarrow> jsval" where
  "slot h a k = getOwn (look h a) k"

definition setSlot :: "heap \<Rightarrow> addr \<Rightarrow> kv \<Rightarrow> jsval \<Rightarrow> heap" where
  "setSlot h a k v = h[a := setOwn (look h a) k v]"

text \<open>\<^verbatim>\<open>x.name\<close> for the names this code reads from a value
  (\<^verbatim>\<open>id\<close>, \<^verbatim>\<open>name\<close>, \<^verbatim>\<open>passProps\<close>, \<^verbatim>\<open>componentId\<close>, \<^verbatim>\<open>content\<close>): a TypeError on
  \<^verbatim>\<open>undefined\<close> and \<^verbatim>\<open>null\<close>, \<^verbatim>\<open>undefined\<close> on any other primitive.\<close>

fun getField :: "heap \<Rightarrow> jsval \<Rightarrow> string \<Rightarrow> error + jsval" where
  "getField h Undefined name = Inl NullishAccess"
| "getField h Null name = Inl NullishAccess"
| "getField h (Ref a) name = Inr (slot h a (KStr name))"
| "getField h v name = Inr Undefined"

text \<open>\<^verbatim>\<open>x.name = v\<close> in strict code.\<close>

fun setField :: "heap \<Rightarrow> jsval \<Rightarrow> string \<Rightarrow> jsval \<Rightarrow> error + heap" where
  "setField h Undefined name v = Inl NullishAccess"
| "setField h Null name v = Inl NullishAccess"
| "setField h (Ref a) name v = Inr (setSlot h a (KStr name) v)"
| "setField h w name v = Inl PrimitiveAssign"

text \<open>Own-property test on a value, for names that are neither indices nor
  \<^verbatim>\<open>length\<close>.\<close>

fun hasOwn :: "heap \<Rightarrow> jsval \<Rightarrow> string \<Rightarrow> bool" where
  "hasOwn h (Ref a) name =
     (case look h a of Object ps \<Rightarrow> hasProp ps name | Array es xs \<Rightarrow> hasProp xs name)"
| "hasOwn h v name = False"

text \<open>lodash \<^verbatim>\<open>has(object, 'a.b')\<close>: false on \<^verbatim>\<open>null\<close> and \<^verbatim>\<open>undefined\<close>; the
  whole string is taken as one key when the object has a property of that very name;
  otherwise both steps of the path must be own properties.\<close>

definition has2 :: "heap \<Rightarrow> jsval \<Rightarrow> string \<Rightarrow> string \<Rightarrow> bool" where
  "has2 h v a b =
     (\<not> nullish v \<and>
      (hasOwn h v (a @ ''.'' @ b) \<or>
       (hasOwn h v a \<and>
        (case getField h v a of
           Inl e \<Rightarrow> False
         | Inr c \<Rightarrow> \<not> nullish c \<and> hasOwn h c b))))"

text \<open>The own enumerable properties that a spread \<^verbatim>\<open>{...v}\<close> copies.\<close>

fun ownProps :: "heap \<Rightarrow> jsval \<Rightarrow> (string \<times> jsval) list" where
  "ownProps h (Ref a) =
     (case look h a of
        Object ps \<Rightarrow> ps
      | Array es xs \<Rightarrow> zip (map showNat [0..<length es]) es @ xs)"
| "ownProps h (Str s) = zip (map showNat [0..<length s]) (map (\<lambda>c. Str [c]) s)"
| "ownProps h v = []"

definition spread :: "(string \<times> jsval) list \<Rightarrow> (string \<times> jsval) list \<Rightarrow> (string \<times> jsval) list" where
  "spread base ps = foldl (\<lambda>acc (k, v). assignProp acc k v) base ps"

text \<open>The keys lodash \<^verbatim>\<open>forEach\<close> enumerates, fixed before the first callback: the
  indices of an array; the indices below \<^verbatim>\<open>length\<close> of a plain object whose
  \<^verbatim>\<open>length\<close> is a valid length (lodash treats it as array-like); otherwise the own
  property names.\<close>

definition isLength :: "jsval \<Rightarrow> bool" where
  "isLength v = (case v of Num n \<Rightarrow> 0 \<le> n \<and> n \<le> 9007199254740991 | _ \<Rightarrow> False)"

fun lengthOf :: "jsval \<Rightarrow> nat" where
  "lengthOf (Num n) = nat n"
| "lengthOf v = 0"

fun objKeys :: "obj \<Rightarrow> kv list" where
  "objKeys (Array es xs) = map KNum [0..<length es]"
| "objKeys (Object ps) =
     (if hasProp ps ''length'' \<and> isLength (lookupProp ps ''length'')
      then map KNum [0..<lengthOf (lookupProp ps ''length'')]
      else map (\<lambda>p. KStr (fst p)) ps)"

text \<open>The keys of \<^verbatim>\<open>forEach(value, ...)\<close> on any value, and the element read for a
  key at the moment of its callback.\<close>

fun valueKeys :: "heap \<Rightarrow> jsval \<Rightarrow> kv list" where
  "valueKeys h (Ref a) = objKeys (look h a)"
| "valueKeys h (Str s) = map KNum [0..<length s]"
| "valueKeys h v = []"

fun element :: "heap \<Rightarrow> jsval \<Rightarrow> kv \<Rightarrow> jsval" where
  "element h (Ref a) k = slot h a k"
| "element h (Str s) (KNum i) = (if i < length s then Str [s ! i] else Undefined)"
| "element h v k = Undefined"

section \<open>Collaborators, their calls, and the state\<close>

text \<open>
  The collaborators of the constructor (processor registry, colour service, asset
  service, id provider, props store, component registry, deprecations) are not part of
  this file of the repository. Those that return a value are parameters of the model,
  taken as pure functions of their arguments that do not throw and create no object;
  every call to a collaborator is recorded in a trace, in the order of the calls. A
  deprecation hook receives a reference to an object; what it can observe is the store
  at that moment, which its event records.
\<close>

datatype event =
    GetProcessors kv
  | CallProcessor nat jsval string
  | ToNativeColor jsval
  | ResolveFromRequire jsval
  | Generate string
  | EnsureClassForName jsval
  | UpdateProps jsval jsval
  | OnProcessOptions kv jsval string heap
  | CheckForDeprecatedOptions jsval heap
  | OnProcessDefaultOptions kv jsval heap

record state =
  store :: heap
  trace :: "event list"
  ids :: nat

type_synonym processor = "jsval \<Rightarrow> string \<Rightarrow> jsval"

record services =
  getProcessors :: "kv \<Rightarrow> processor list option"
  toNativeColor :: "jsval \<Rightarrow> jsval"
  resolveFromRequire :: "jsval \<Rightarrow> jsval"
  generate :: "string \<Rightarrow> nat \<Rightarrow> string"

definition emit :: "event \<Rightarrow> state \<Rightarrow> state" where
  "emit e st = st\<lparr>trace := trace st @ [e]\<rparr>"

text \<open>A thrown error ends the whole walk.\<close>

definition bindE :: "error + 'a \<Rightarrow> ('a \<Rightarrow> error + 'b) \<Rightarrow> error + 'b" where
  "bindE m f = (case m of Inl e \<Rightarrow> Inl e | Inr x \<Rightarrow> f x)"

text \<open>An object literal stored under \<^verbatim>\<open>options[key]\<close>: the new object takes the next
  address of the store.\<close>

definition storeNewObject :: "addr \<Rightarrow> kv \<Rightarrow> (string \<times> jsval) list \<Rightarrow> state \<Rightarrow> state" where
  "storeNewObject opts key props st =
     st\<lparr>store := setSlot (store st @ [Object props]) opts key (Ref (length (store st)))\<rparr>"

section \<open>The transforms\<close>

text \<open>\<^verbatim>\<open>registeredProcessors.forEach((processor) => { options[key] = processor(value, commandName); })\<close>\<close>

fun applyProcessors ::
  "kv \<Rightarrow> jsval \<Rightarrow> addr \<Rightarrow> string \<Rightarrow> nat \<Rightarrow> processor list \<Rightarrow> state \<Rightarrow> state" where
  "applyProcessors key value opts cmd i [] st = st"
| "applyProcessors key value opts cmd i (p # ps) st =
     applyProcessors key value opts cmd (Suc i) ps
       ((emit (CallProcessor i value cmd) st)
          \<lparr>store := setSlot (store st) opts key (p value cmd)\<rparr>)"

definition processWithRegisteredProcessor ::
  "services \<Rightarrow> kv \<Rightarrow> jsval \<Rightarrow> addr \<Rightarrow> kv \<Rightarrow> string \<Rightarrow> state \<Rightarrow> state" where
  "processWithRegisteredProcessor sv key value opts path cmd st =
     (case getProcessors sv path of
        None \<Rightarrow> emit (GetProcessors path) st
      | Some ps \<Rightarrow> applyProcessors key value opts cmd 0 ps (emit (GetProcessors path) st))"

definition processColor :: "services \<Rightarrow> kv \<Rightarrow> jsval \<Rightarrow> addr \<Rightarrow> state \<Rightarrow> state" where
  "processColor sv key value opts st =
     (if key = KStr ''color'' \<or> endsWith (keyName key) ''Color''
      then (if value = Null
            then st\<lparr>store := setSlot (store st) opts key (Str ''NoColor'')\<rparr>
            else (emit (ToNativeColor value) st)
                   \<lparr>store := setSlot (store st) opts key (toNativeColor sv value)\<rparr>)
      else st)"

fun isString :: "jsval \<Rightarrow> bool" where
  "isString (Str s) = True"
| "isString v = False"

definition processImage :: "services \<Rightarrow> kv \<Rightarrow> jsval \<Rightarrow> addr \<Rightarrow> state \<Rightarrow> state" where
  "processImage sv key value opts st =
     (if key = KStr ''icon'' \<or> key = KStr ''image'' \<or>
         endsWith (keyName key) ''Icon'' \<or> endsWith (keyName key) ''Image''
      then (if isString value
            then st\<lparr>store := setSlot (store st) opts key value\<rparr>
            else (emit (ResolveFromRequire value) st)
                   \<lparr>store := setSlot (store st) opts key (resolveFromRequire sv value)\<rparr>)
      else st)"

text \<open>The callback of \<^verbatim>\<open>processButtonsPassProps\<close> on one button.\<close>

definition processButton :: "jsval \<Rightarrow> state \<Rightarrow> error + state" where
  "processButton button st =
     bindE (getField (store st) button ''passProps'') (\<lambda>pp.
       if truthy pp
       then bindE (getField (store st) button ''id'') (\<lambda>bid.
              if truthy bid
              then bindE (setField (store st) button ''passProps'' Undefined) (\<lambda>h.
                     Inr ((emit (UpdateProps bid pp) st)\<lparr>store := h\<rparr>))
              else Inr st)
       else Inr st)"

fun eachButton :: "jsval \<Rightarrow> kv list \<Rightarrow> state \<Rightarrow> error + state" where
  "eachButton value [] st = Inr st"
| "eachButton value (k # ks) st =
     bindE (processButton (element (store st) value k) st) (eachButton value ks)"

definition processButtonsPassProps :: "kv \<Rightarrow> jsval \<Rightarrow> state \<Rightarrow> error + state" where
  "processButtonsPassProps key value st =
     (if endsWith (keyName key) ''Buttons''
      then eachButton value (valueKeys (store st) value) st
      else Inr st)"

definition processComponent ::
  "services \<Rightarrow> kv \<Rightarrow> jsval \<Rightarrow> addr \<Rightarrow> state \<Rightarrow> error + state" where
  "processComponent sv key value opts st =
     (if key = KStr ''component''
      then
        bindE (getField (store st) value ''id'') (\<lambda>vid.
        let st1 = (if truthy vid then st
                   else (emit (Generate ''CustomComponent'') st)\<lparr>ids := Suc (ids st)\<rparr>);
            cid = (if truthy vid then vid
                   else Str (generate sv ''CustomComponent'' (ids st)))
        in
        bindE (setField (store st1) value ''componentId'' cid) (\<lambda>h1.
        bindE (getField h1 value ''name'') (\<lambda>nm.
        let st2 = emit (EnsureClassForName nm) (st1\<lparr>store := h1\<rparr>) in
        bindE (getField h1 value ''passProps'') (\<lambda>pp.
        bindE (getField h1 value ''componentId'') (\<lambda>cid'.
        let st3 = (if truthy pp then emit (UpdateProps cid' pp) st2 else st2) in
        bindE (setField (store st3) (slot (store st3) opts key) ''passProps'' Undefined) (\<lambda>h2.
        Inr (st3\<lparr>store := h2\<rparr>)))))))
      else Inr st)"

text \<open>The object literal \<^verbatim>\<open>deprecatedSearchBarOptions\<close>, read from the siblings of
  the key.\<close>

definition deprecatedSearchBarOptions :: "heap \<Rightarrow> addr \<Rightarrow> (string \<times> jsval) list" where
  "deprecatedSearchBarOptions h opts =
     [(''visible'', Bool False),
      (''hideOnScroll'', coalesce (slot h opts (KStr ''searchBarHiddenWhenScrolling'')) (Bool False)),
      (''hideTopBarOnFocus'', coalesce (slot h opts (KStr ''hideNavBarOnFocusSearchBar'')) (Bool False)),
      (''obscuresBackgroundDuringPresentation'', Bool False),
      (''backgroundColor'', slot h opts (KStr ''searchBarBackgroundColor'')),
      (''tintColor'', slot h opts (KStr ''searchBarTintColor'')),
      (''placeholder'', coalesce (slot h opts (KStr ''searchBarPlaceholder'')) (Str []))]"

text \<open>The property names of that literal, in its order.\<close>

definition searchBarKeys :: "string list" where
  "searchBarKeys = [''visible'', ''hideOnScroll'', ''hideTopBarOnFocus'',
     ''obscuresBackgroundDuringPresentation'', ''backgroundColor'', ''tintColor'',
     ''placeholder'']"

definition processSearchBar :: "kv \<Rightarrow> jsval \<Rightarrow> addr \<Rightarrow> state \<Rightarrow> state" where
  "processSearchBar key value opts st =
     (if key \<noteq> KStr ''searchBar'' then st
      else
        (case value of
           Bool b \<Rightarrow>
             storeNewObject opts key
               (assignProp (deprecatedSearchBarOptions (store st) opts) ''visible'' (Bool b))
               (emit (OnProcessOptions key (Ref opts) [] (store st)) st)
         | _ \<Rightarrow>
             storeNewObject opts key
               (spread (deprecatedSearchBarOptions (store st) opts) (ownProps (store st) value))
               st))"

definition processInterpolation :: "kv \<Rightarrow> jsval \<Rightarrow> addr \<Rightarrow> state \<Rightarrow> state" where
  "processInterpolation key value opts st =
     (if key = KStr ''interpolation'' \<and> isString value
      then storeNewObject opts key [(''type'', slot (store st) opts key)]
             (emit (OnProcessOptions key (Ref opts) [] (store st)) st)
      else st)"

definition processSetStackRoot :: "kv \<Rightarrow> jsval \<Rightarrow> addr \<Rightarrow> state \<Rightarrow> state" where
  "processSetStackRoot key animation opts st =
     (if key \<noteq> KStr ''setStackRoot'' then st
      else if \<not> has2 (store st) animation ''content'' ''enter'' \<and>
              \<not> has2 (store st) animation ''content'' ''exit''
      then st\<lparr>store :=
             setSlot (store st @ [Object [(''content'', Ref (Suc (length (store st))))],
                                  Object [(''enter'', animation)]])
               opts key (Ref (length (store st)))\<rparr>
      else st)"

definition processPop :: "kv \<Rightarrow> jsval \<Rightarrow> addr \<Rightarrow> state \<Rightarrow> error + state" where
  "processPop key animation opts st =
     (if key \<noteq> KStr ''pop'' then Inr st
      else if \<not> has2 (store st) animation ''content'' ''enter'' \<and>
              \<not> has2 (store st) animation ''content'' ''exit''
      then
        bindE (getField (store st) animation ''content'') (\<lambda>c.
        bindE (setField (store st @ [Object [(''exit'', c)]])
                 (slot (store st) opts (KStr ''pop'')) ''content'' (Ref (length (store st)))) (\<lambda>h.
        Inr (st\<lparr>store := h\<rparr>)))
      else Inr st)"

definition processPush :: "kv \<Rightarrow> jsval \<Rightarrow> addr \<Rightarrow> state \<Rightarrow> error + state" where
  "processPush key animation opts st =
     (if key \<noteq> KStr ''push'' then Inr st
      else if \<not> has2 (store st) animation ''content'' ''enter'' \<and>
              \<not> has2 (store st) animation ''content'' ''exit''
      then
        bindE (getField (store st) animation ''content'') (\<lambda>c.
        bindE (setField (store st @ [Object [(''enter'', c)]])
                 (slot (store st) opts (KStr ''push'')) ''content'' (Ref (length (store st)))) (\<lambda>h.
        Inr (st\<lparr>store := h\<rparr>)))
      else Inr st)"

definition processAnimation :: "kv \<Rightarrow> jsval \<Rightarrow> addr \<Rightarrow> state \<Rightarrow> error + state" where
  "processAnimation key value opts st =
     bindE (processPush key value opts st) (\<lambda>st1.
     bindE (processPop key value opts st1) (\<lambda>st2.
     Inr (processSetStackRoot key value opts st2)))"

section \<open>The walk\<close>

text \<open>\<^verbatim>\<open>if (!path) path = key; else path += `.${key}`\<close>: a path is absent, a string or
  (for an index met before any non-empty path) a number; the empty string and 0 are
  falsy.\<close>

fun falsyPath :: "kv option \<Rightarrow> bool" where
  "falsyPath None = True"
| "falsyPath (Some (KStr s)) = (s = [])"
| "falsyPath (Some (KNum n)) = (n = 0)"

definition resolveObjectPath :: "kv \<Rightarrow> kv option \<Rightarrow> kv" where
  "resolveObjectPath key path =
     (case path of
        None \<Rightarrow> key
      | Some p \<Rightarrow> if falsyPath path then key else KStr (keyName p @ ''.'' @ keyName key))"

type_synonym hook = "kv \<Rightarrow> jsval \<Rightarrow> state \<Rightarrow> state"

text \<open>The callback that \<^verbatim>\<open>processObject\<close> hands to \<^verbatim>\<open>forEach\<close>, for one key. The
  value is read when the key is visited and is the \<^verbatim>\<open>value\<close> of every transform;
  \<open>recurse\<close> is the recursive call of \<^verbatim>\<open>processObject\<close>. The processed value
  satisfies \<^verbatim>\<open>isObject(...) || isArray(...)\<close> exactly when it is a reference.\<close>

definition visit ::
  "(addr \<Rightarrow> jsval \<Rightarrow> kv option \<Rightarrow> state \<Rightarrow> error + state) \<Rightarrow>
   services \<Rightarrow> hook \<Rightarrow> string \<Rightarrow> addr \<Rightarrow> jsval \<Rightarrow> kv option \<Rightarrow> kv \<Rightarrow> state \<Rightarrow> error + state" where
  "visit recurse sv onProcess cmd opts parent parentPath key st =
     (let value = slot (store st) opts key;
          objectPath = resolveObjectPath key parentPath;
          st1 = processWithRegisteredProcessor sv key value opts objectPath cmd st;
          st2 = processColor sv key value opts st1
      in
      if \<not> truthy value then Inr st2
      else
        bindE (processComponent sv key value opts st2) (\<lambda>st3.
        bindE (processButtonsPassProps key value (processImage sv key value opts st3)) (\<lambda>st4.
        bindE (processAnimation key value opts
                 (processInterpolation key value opts (processSearchBar key value opts st4))) (\<lambda>st5.
        let st6 = onProcess key parent st5 in
        (case slot (store st6) opts key of
           Ref child \<Rightarrow>
             if key \<noteq> KStr ''passProps''
             then recurse child parent (Some objectPath) st6
             else Inr st6
         | _ \<Rightarrow> Inr st6)))))"

fun forEachKey :: "(kv \<Rightarrow> state \<Rightarrow> error + state) \<Rightarrow> kv list \<Rightarrow> state \<Rightarrow> error + state" where
  "forEachKey f [] st = Inr st"
| "forEachKey f (k # ks) st = bindE (f k st) (forEachKey f ks)"

text \<open>\<^verbatim>\<open>processObject\<close>. The first argument bounds the depth of the recursion: the
  call stack of the engine is finite, and a configuration that refers back to itself
  overflows it.\<close>

primrec processObject ::
  "nat \<Rightarrow> services \<Rightarrow> hook \<Rightarrow> string \<Rightarrow> addr \<Rightarrow> jsval \<Rightarrow> kv option \<Rightarrow> state \<Rightarrow> error + state" where
  "processObject 0 sv onProcess cmd opts parent parentPath st = Inl RangeError"
| "processObject (Suc n) sv onProcess cmd opts parent parentPath st =
     forEachKey (visit (processObject n sv onProcess cmd) sv onProcess cmd opts parent parentPath)
       (objKeys (look (store st) opts)) st"

text \<open>lodash \<^verbatim>\<open>clone\<close>: a new object with the same own properties, holding the same
  references; of an array, a new array with the same elements (and, as lodash does for the
  result of a regular-expression match, its \<^verbatim>\<open>index\<close> and \<^verbatim>\<open>input\<close> when the first
  element is a string and \<^verbatim>\<open>index\<close> is an own property).\<close>

fun clone :: "obj \<Rightarrow> obj" where
  "clone (Object ps) = Object ps"
| "clone (Array es xs) =
     Array es
       (if es \<noteq> [] \<and> isString (hd es) \<and> hasProp xs ''index''
        then [(''index'', lookupProp xs ''index''), (''input'', lookupProp xs ''input'')]
        else [])"

definition standardHook :: "string \<Rightarrow> hook" where
  "standardHook cmd key parent st =
     emit (CheckForDeprecatedOptions parent (store st))
       (emit (OnProcessOptions key parent cmd (store st)) st)"

definition defaultHook :: hook where
  "defaultHook key parent st = emit (OnProcessDefaultOptions key parent (store st)) st"

definition processOptions :: "nat \<Rightarrow> services \<Rightarrow> addr \<Rightarrow> string \<Rightarrow> state \<Rightarrow> error + state" where
  "processOptions fuel sv options cmd st =
     processObject fuel sv (standardHook cmd) cmd options (Ref (length (store st))) None
       (st\<lparr>store := store st @ [clone (look (store st) options)]\<rparr>)"

definition processDefaultOptions :: "nat \<Rightarrow> services \<Rightarrow> addr \<Rightarrow> string \<Rightarrow> state \<Rightarrow> error + state" where
  "processDefaultOptions fuel sv options cmd st =
     processObject fuel sv defaultHook cmd options (Ref (length (store st))) None
       (st\<lparr>store := store st @ [clone (look (store st) options)]\<rparr>)"

section \<open>Reading a value out of the store\<close>

text \<open>The shape of a value, followed through the store to a given depth; used to compare
  a result with an object literal.\<close>

datatype shape =
    SUndefined | SNull | SBool bool | SNum int | SStr string
  | SObject "(string \<times> shape) list"
  | SArray "shape list" "(string \<times> shape) list"
  | SDeeper

fun shapeOf :: "nat \<Rightarrow> heap \<Rightarrow> jsval \<Rightarrow> shape" where
  "shapeOf n h Undefined = SUndefined"
| "shapeOf n h Null = SNull"
| "shapeOf n h (Bool b) = SBool b"
| "shapeOf n h (Num i) = SNum i"
| "shapeOf n h (Str s) = SStr s"
| "shapeOf 0 h (Ref a) = SDeeper"
| "shapeOf (Suc n) h (Ref a) =
     (case look h a of
        Object ps \<Rightarrow> SObject (map (\<lambda>p. (fst p, shapeOf n h (snd p))) ps)
      | Array es xs \<Rightarrow>
          SArray (map (shapeOf n h) es) (map (\<lambda>p. (fst p, shapeOf n h (snd p))) xs))"

section \<open>The snapshot during a walk\<close>

text \<open>The values held directly by an object.\<close>

fun valuesOf :: "obj \<Rightarrow> jsval list" where
  "valuesOf (Object ps) = map snd ps"
| "valuesOf (Array es xs) = es @ map snd xs"

text \<open>No object of the store holds a reference to the address \<open>c\<close>. This is true of the
  next free address of any store without dangling references.\<close>

definition unreferenced :: "addr \<Rightarrow> heap \<Rightarrow> bool" where
  "unreferenced c h = (\<forall>ob \<in> set h. Ref c \<notin> set (valuesOf ob))"

text \<open>What a recorded deprecation call says about the snapshot at address \<open>c\<close>: the two
  hooks that only the per-visit callback calls were handed the snapshot and found there
  the object \<open>ob\<close>; \<^verbatim>\<open>onProcessOptions\<close>, which the search-bar and interpolation
  transforms call as well (with the live node), found \<open>ob\<close> there whenever it was handed
  the snapshot.\<close>

fun snapshotSeen :: "addr \<Rightarrow> obj \<Rightarrow> event \<Rightarrow> bool" where
  "snapshotSeen c ob (OnProcessOptions k p cmd h) = (if p = Ref c then look h c = ob else True)"
| "snapshotSeen c ob (CheckForDeprecatedOptions p h) = (p = Ref c \<and> look h c = ob)"
| "snapshotSeen c ob (OnProcessDefaultOptions k p h) = (p = Ref c \<and> look h c = ob)"
| "snapshotSeen c ob e = True"

text \<open>The collaborators do not produce the reference \<open>c\<close>: they return it for no
  argument other than itself.\<close>

definition safeServices :: "addr \<Rightarrow> services \<Rightarrow> bool" where
  "safeServices c sv =
     ((\<forall>v. v \<noteq> Ref c \<longrightarrow> toNativeColor sv v \<noteq> Ref c) \<and>
      (\<forall>v. v \<noteq> Ref c \<longrightarrow> resolveFromRequire sv v \<noteq> Ref c) \<and>
      (\<forall>path ps. getProcessors sv path = Some ps \<longrightarrow>
         (\<forall>p \<in> set ps. \<forall>v cmd. v \<noteq> Ref c \<longrightarrow> p v cmd \<noteq> Ref c)))"

text \<open>The invariant of the walk: the snapshot exists, nothing refers to it, it still is
  \<open>ob\<close>, and every deprecation call recorded from position \<open>n\<close> of the trace on saw it
  so.\<close>

definition fresh :: "addr \<Rightarrow> heap \<Rightarrow> bool" where
  "fresh c h = (c < length h \<and> unreferenced c h)"

definition walkInv :: "addr \<Rightarrow> obj \<Rightarrow> nat \<Rightarrow> state \<Rightarrow> bool" where
  "walkInv c ob n st =
     (fresh c (store st) \<and> look (store st) c = ob \<and>
      (\<forall>e \<in> set (drop n (trace st)). snapshotSeen c ob e))"

text \<open>The shape that a recorded deprecation call could read from the object it was
  handed.\<close>

fun hookView :: "nat \<Rightarrow> event \<Rightarrow> shape option" where
  "hookView d (OnProcessOptions k p cmd h) = Some (shapeOf d h p)"
| "hookView d (CheckForDeprecatedOptions p h) = Some (shapeOf d h p)"
| "hookView d (OnProcessDefaultOptions k p h) = Some (shapeOf d h p)"
| "hookView d e = None"

section \<open>Example configurations\<close>

text \<open>Concrete collaborators and stores on which the theorems below are instantiated. The
  example colour service tags a colour string and maps every other value to 0; the example
  registry is a finite table.\<close>

definition exServices :: services where
  "exServices = \<lparr>getProcessors = (\<lambda>p. None),
      toNativeColor = (\<lambda>v. case v of Str s \<Rightarrow> Str (''native:'' @ s) | _ \<Rightarrow> Num 0),
      resolveFromRequire = (\<lambda>v. v), generate = (\<lambda>p n. p @ showNat n)\<rparr>"

definition exState :: "heap \<Rightarrow> state" where
  "exState h = \<lparr>store = h, trace = [], ids = 0\<rparr>"

definition withProcessors :: "(kv \<times> processor list) list \<Rightarrow> services" where
  "withProcessors reg = exServices\<lparr>getProcessors := map_of reg\<rparr>"

definition chainProcessors :: "processor list" where
  "chainProcessors =
     [\<lambda>v c. Str ''A'', \<lambda>v c. (case v of Str s \<Rightarrow> Str (s @ ''B'') | _ \<Rightarrow> v)]"

section \<open>Facts about the store\<close>

lemmas walk_defs =
  processOptions_def processDefaultOptions_def visit_def standardHook_def defaultHook_def
  processWithRegisteredProcessor_def processColor_def processImage_def processComponent_def
  processButtonsPassProps_def processButton_def processSearchBar_def processInterpolation_def
  processAnimation_def processPush_def processPop_def processSetStackRoot_def
  storeNewObject_def deprecatedSearchBarOptions_def coalesce_def spread_def
  resolveObjectPath_def bindE_def emit_def has2_def isLength_def
  slot_def setSlot_def look_def endsWith_def
  exServices_def exState_def withProcessors_def chainProcessors_def Let_def

lemma withProcessors_services:
  "getProcessors (withProcessors reg) = map_of reg"
  "toNativeColor (withProcessors reg) = toNativeColor exServices"
  "resolveFromRequire (withProcessors reg) = resolveFromRequire exServices"
  "generate (withProcessors reg) = generate exServices"
  by (simp_all add: withProcessors_def)

lemma lookupProp_assignProp:
  "lookupProp (assignProp ps k v) k' = (if k' = k then v else lookupProp ps k')"
  by (induction ps) auto

lemma getOwn_setOwn_same: "getOwn (setOwn ob k v) k = v"
proof (cases ob)
  case (Object ps)
  then show ?thesis by (simp add: lookupProp_assignProp)
next
  case (Array es xs)
  then show ?thesis
    by (cases k) (auto simp: lookupProp_assignProp nth_append)
qed

lemma length_setSlot [simp]: "length (setSlot h a k v) = length h"
  by (simp add: setSlot_def)

lemma look_setSlot:
  "look (setSlot h a k v) b =
     (if b = a \<and> a < length h then setOwn (look h a) k v else look h b)"
  by (auto simp: look_def setSlot_def)

lemma slot_setSlot_same: "a < length h \<Longrightarrow> slot (setSlot h a k v) a k = v"
  by (simp add: slot_def look_setSlot getOwn_setOwn_same)

lemma look_append:
  "look (h @ [ob]) a =
     (if a < length h then look h a else if a = length h then ob else Object [])"
  by (auto simp: look_def nth_append)

lemma store_emit [simp]: "store (emit e st) = store st"
  and trace_emit [simp]: "trace (emit e st) = trace st @ [e]"
  and ids_emit [simp]: "ids (emit e st) = ids st"
  by (simp_all add: emit_def)

lemma storeNewObject_slot:
  "opts < length (store st) \<Longrightarrow>
   slot (store (storeNewObject opts key props st)) opts key = Ref (length (store st))"
  by (simp add: storeNewObject_def slot_setSlot_same)

lemma storeNewObject_look:
  "opts < length (store st) \<Longrightarrow> n = length (store st) \<Longrightarrow>
   look (store (storeNewObject opts key props st)) n = Object props"
  by (simp add: storeNewObject_def look_setSlot look_append)

lemma storeNewObject_trace [simp]: "trace (storeNewObject opts key props st) = trace st"
  by (simp add: storeNewObject_def)

section \<open>The registry step\<close>



lemma applyProcessors_length [simp]:
  "length (store (applyProcessors key value opts cmd i ps st)) = length (store st)"
  by (induction ps arbitrary: i st) simp_all


lemma list_update_look: "h[a := look h a] = h"
  by (cases "a < length h") (simp_all add: look_def list_update_beyond)

lemma applyProcessors_frame:
  "store (applyProcessors key value opts cmd i ps st) =
     (store st)[opts := look (store (applyProcessors key value opts cmd i ps st)) opts]"
proof (induction ps arbitrary: i st)
  case Nil
  then show ?case by (simp add: list_update_look)
next
  case (Cons p ps)
  have "store (applyProcessors key value opts cmd i (p # ps) st) =
          ((store st)[opts := setOwn (look (store st) opts) key (p value cmd)])
            [opts := look (store (applyProcessors key value opts cmd i (p # ps) st)) opts]"
    using Cons [of "Suc i"
        "(emit (CallProcessor i value cmd) st)\<lparr>store := setSlot (store st) opts key (p value cmd)\<rparr>"]
    by (simp add: setSlot_def)
  then show ?case by simp
qed




section \<open>Falsy values\<close>

lemma visit_falsy_value:
  "\<not> truthy (slot (store st) opts key) \<Longrightarrow>
   visit recurse sv onProcess cmd opts parent parentPath key st =
     Inr (processColor sv key (slot (store st) opts key) opts
            (processWithRegisteredProcessor sv key (slot (store st) opts key) opts
               (resolveObjectPath key parentPath) cmd st))"
  by (simp add: visit_def Let_def)

text \<open>
  C4 (corrected). As stated the claim fails: the test \<^verbatim>\<open>if (!value)\<close> reads the value
  enumerated for the key, not the content of the slot after the registry processors and
  the colour transform; a truthy value that a processor replaced by \<^verbatim>\<open>undefined\<close> still
  gets the deprecation callback. What holds: when the value enumerated for the key is
  falsy, the visit of the key is exactly the registry step followed by the colour
  transform, whatever the callback and the recursive call are, and the walk goes on with
  the next key.
\<close>

theorem falsy_value_skips_rest:
  assumes "\<not> truthy (slot (store st) opts key)"
    and "st2 = processColor sv key (slot (store st) opts key) opts
                 (processWithRegisteredProcessor sv key (slot (store st) opts key) opts
                    (resolveObjectPath key parentPath) cmd st)"
  shows "visit recurse sv onProcess cmd opts parent parentPath key st = Inr st2 \<and>
         forEachKey (visit recurse sv onProcess cmd opts parent parentPath) (key # keys) st =
           forEachKey (visit recurse sv onProcess cmd opts parent parentPath) keys st2"
  using assms by (simp add: visit_falsy_value bindE_def)

theorem falsy_value_skips_rest_witness:
  "visit (\<lambda>child parent path st. Inl RangeError) exServices (standardHook ''setRoot'') ''setRoot''
     0 (Ref 1) None (KStr ''titleColor'')
     (exState [Object [(''titleColor'', Null)], Object [(''titleColor'', Null)]]) =
   Inr \<lparr>store = [Object [(''titleColor'', Str ''NoColor'')], Object [(''titleColor'', Null)]],
        trace = [GetProcessors (KStr ''titleColor'')], ids = 0\<rparr>"
  using falsy_value_skips_rest [where st = "exState [Object [(''titleColor'', Null)], Object [(''titleColor'', Null)]]"
      and opts = 0 and key = "KStr ''titleColor''" and sv = exServices and parentPath = None
      and cmd = "''setRoot''" and recurse = "\<lambda>child parent path st. Inl RangeError"
      and onProcess = "standardHook ''setRoot''" and parent = "Ref 1", OF _ refl]
  by (simp add: walk_defs)

text \<open>The walk of \<^verbatim>\<open>{ x: 'abc' }\<close> with a processor for \<^verbatim>\<open>x\<close> that returns
  \<^verbatim>\<open>undefined\<close>: the slot is falsy after the registry step, and the deprecation hooks
  are called for \<^verbatim>\<open>x\<close> all the same.\<close>

theorem falsy_after_registry_counterexample:
  "processOptions (Suc 0) (withProcessors [(KStr ''x'', [\<lambda>v c. Undefined])]) 0 ''setRoot''
     (exState [Object [(''x'', Str ''abc'')]]) =
   Inr \<lparr>store = [Object [(''x'', Undefined)], Object [(''x'', Str ''abc'')]],
        trace =
          [GetProcessors (KStr ''x''),
           CallProcessor 0 (Str ''abc'') ''setRoot'',
           OnProcessOptions (KStr ''x'') (Ref 1) ''setRoot''
             [Object [(''x'', Undefined)], Object [(''x'', Str ''abc'')]],
           CheckForDeprecatedOptions (Ref 1)
             [Object [(''x'', Undefined)], Object [(''x'', Str ''abc'')]]],
        ids = 0\<rparr>"
  by (simp add: walk_defs)

section \<open>The colour transform\<close>




section \<open>The search bar\<close>

text \<open>
  C5 (confirmed). For the key \<^verbatim>\<open>searchBar\<close> with the value \<^verbatim>\<open>true\<close>, the transform
  stores a reference to a new object under the key (so the value is no longer a boolean);
  the object is the defaults with \<^verbatim>\<open>visible: true\<close>, where \<^verbatim>\<open>hideOnScroll\<close>,
  \<^verbatim>\<open>hideTopBarOnFocus\<close> and \<^verbatim>\<open>placeholder\<close> come from the legacy siblings when these
  are neither \<^verbatim>\<open>undefined\<close> nor \<^verbatim>\<open>null\<close> and are \<^verbatim>\<open>false\<close>, \<^verbatim>\<open>false\<close> and \<^verbatim>\<open>''\<close>
  otherwise, \<^verbatim>\<open>backgroundColor\<close> and \<^verbatim>\<open>tintColor\<close> are the siblings as they are, and
  \<^verbatim>\<open>obscuresBackgroundDuringPresentation\<close> is \<^verbatim>\<open>false\<close>; the deprecation hook is
  called once, before the slot is written.
\<close>

theorem searchBar_true:
  assumes "opts < length (store st)"
    and "st' = processSearchBar (KStr ''searchBar'') (Bool True) opts st"
    and "sibling = (\<lambda>name. slot (store st) opts (KStr name))"
  shows "slot (store st') opts (KStr ''searchBar'') = Ref (length (store st)) \<and>
         look (store st') (length (store st)) = Object
           [(''visible'', Bool True),
            (''hideOnScroll'',
               if nullish (sibling ''searchBarHiddenWhenScrolling'') then Bool False
               else sibling ''searchBarHiddenWhenScrolling''),
            (''hideTopBarOnFocus'',
               if nullish (sibling ''hideNavBarOnFocusSearchBar'') then Bool False
               else sibling ''hideNavBarOnFocusSearchBar''),
            (''obscuresBackgroundDuringPresentation'', Bool False),
            (''backgroundColor'', sibling ''searchBarBackgroundColor''),
            (''tintColor'', sibling ''searchBarTintColor''),
            (''placeholder'',
               if nullish (sibling ''searchBarPlaceholder'') then Str []
               else sibling ''searchBarPlaceholder'')] \<and>
         trace st' = trace st @ [OnProcessOptions (KStr ''searchBar'') (Ref opts) [] (store st)]"
  using assms
  by (simp add: processSearchBar_def storeNewObject_slot storeNewObject_look
      deprecatedSearchBarOptions_def coalesce_def)

theorem searchBar_true_witness:
  "look (store (processSearchBar (KStr ''searchBar'') (Bool True) 0
                  (exState [Object [(''searchBar'', Bool True),
                                    (''searchBarHiddenWhenScrolling'', Bool True),
                                    (''searchBarTintColor'', Str ''red'')]]))) 1 =
     Object
       [(''visible'', Bool True),
        (''hideOnScroll'', Bool True),
        (''hideTopBarOnFocus'', Bool False),
        (''obscuresBackgroundDuringPresentation'', Bool False),
        (''backgroundColor'', Undefined),
        (''tintColor'', Str ''red''),
        (''placeholder'', Str [])]"
proof -
  have a: "0 < length (store (exState [Object [(''searchBar'', Bool True),
                                    (''searchBarHiddenWhenScrolling'', Bool True),
                                    (''searchBarTintColor'', Str ''red'')]]))"
    by (simp add: exState_def)
  show ?thesis
    using searchBar_true [OF a refl refl]
    by (simp add: exState_def slot_def look_def)
qed

section \<open>The interpolation shorthand\<close>



section \<open>The pass-through key\<close>

lemma passProps_no_transform:
  "processColor sv (KStr ''passProps'') v opts st = st"
  "processComponent sv (KStr ''passProps'') v opts st = Inr st"
  "processImage sv (KStr ''passProps'') v opts st = st"
  "processButtonsPassProps (KStr ''passProps'') v st = Inr st"
  "processSearchBar (KStr ''passProps'') v opts st = st"
  "processInterpolation (KStr ''passProps'') v opts st = st"
  "processAnimation (KStr ''passProps'') v opts st = Inr st"
  by (simp_all add: processColor_def processComponent_def processImage_def
      processButtonsPassProps_def processSearchBar_def processInterpolation_def
      processAnimation_def processPush_def processPop_def processSetStackRoot_def
      bindE_def endsWith_def)

lemma registry_frame:
  "store (processWithRegisteredProcessor sv key v opts path cmd st) =
     (store st)[opts := look (store (processWithRegisteredProcessor sv key v opts path cmd st)) opts]"
proof (cases "getProcessors sv path")
  case None
  then show ?thesis
    by (simp add: processWithRegisteredProcessor_def list_update_look)
next
  case (Some ps)
  then show ?thesis
    using applyProcessors_frame [of key v opts cmd 0 ps "emit (GetProcessors path) st"]
    by (simp add: processWithRegisteredProcessor_def)
qed

text \<open>
  C8 (confirmed). The visit of the key \<^verbatim>\<open>passProps\<close> is the registry step for the key
  itself followed, for a truthy value, by the per-visit callback, and nothing else: the
  equation holds for every recursive call that \<^verbatim>\<open>processObject\<close> could be given, so
  the call is not made, whatever the value is (an object or an array included). No
  built-in transform runs, and the registry step writes no object of the store but the
  node that holds the key: every object below \<^verbatim>\<open>passProps\<close> is left as it was, and no
  processor is looked up for a path below it.
\<close>

theorem passProps_not_walked:
  "visit recurse sv onProcess cmd opts parent parentPath (KStr ''passProps'') st =
     Inr (let val = slot (store st) opts (KStr ''passProps'');
              st1 = processWithRegisteredProcessor sv (KStr ''passProps'') val opts
                      (resolveObjectPath (KStr ''passProps'') parentPath) cmd st
          in if truthy val then onProcess (KStr ''passProps'') parent st1 else st1) \<and>
   store (processWithRegisteredProcessor sv (KStr ''passProps'')
            (slot (store st) opts (KStr ''passProps'')) opts
            (resolveObjectPath (KStr ''passProps'') parentPath) cmd st) =
     (store st)[opts := look (store (processWithRegisteredProcessor sv (KStr ''passProps'')
            (slot (store st) opts (KStr ''passProps'')) opts
            (resolveObjectPath (KStr ''passProps'') parentPath) cmd st)) opts]"
proof -
  have "visit recurse sv onProcess cmd opts parent parentPath (KStr ''passProps'') st =
     Inr (let val = slot (store st) opts (KStr ''passProps'');
              st1 = processWithRegisteredProcessor sv (KStr ''passProps'') val opts
                      (resolveObjectPath (KStr ''passProps'') parentPath) cmd st
          in if truthy val then onProcess (KStr ''passProps'') parent st1 else st1)"
    by (simp add: visit_def Let_def passProps_no_transform bindE_def split: jsval.split)
  then show ?thesis
    using registry_frame by blast
qed

text \<open>The walk of \<^verbatim>\<open>{ passProps: { titleColor: null, searchBar: true } }\<close>, with a
  processor registered for the path \<^verbatim>\<open>passProps.titleColor\<close>: the object under
  \<^verbatim>\<open>passProps\<close> is unchanged and the registry is asked for \<^verbatim>\<open>passProps\<close> only.\<close>

theorem passProps_not_walked_witness:
  "processOptions (Suc 0)
     (withProcessors [(KStr ''passProps.titleColor'', [\<lambda>v c. Str ''changed''])]) 0 ''setRoot''
     (exState [Object [(''passProps'', Ref 1)],
               Object [(''titleColor'', Null), (''searchBar'', Bool True)]]) =
   Inr \<lparr>store = [Object [(''passProps'', Ref 1)],
                 Object [(''titleColor'', Null), (''searchBar'', Bool True)],
                 Object [(''passProps'', Ref 1)]],
        trace =
          [GetProcessors (KStr ''passProps''),
           OnProcessOptions (KStr ''passProps'') (Ref 2) ''setRoot''
             [Object [(''passProps'', Ref 1)],
              Object [(''titleColor'', Null), (''searchBar'', Bool True)],
              Object [(''passProps'', Ref 1)]],
           CheckForDeprecatedOptions (Ref 2)
             [Object [(''passProps'', Ref 1)],
              Object [(''titleColor'', Null), (''searchBar'', Bool True)],
              Object [(''passProps'', Ref 1)]]],
        ids = 0\<rparr>"
proof -
  have "visit
          (processObject 0
             (withProcessors [(KStr ''passProps.titleColor'', [\<lambda>v c. Str ''changed''])])
             (standardHook ''setRoot'') ''setRoot'')
          (withProcessors [(KStr ''passProps.titleColor'', [\<lambda>v c. Str ''changed''])])
          (standardHook ''setRoot'') ''setRoot'' 0 (Ref 2) None (KStr ''passProps'')
          \<lparr>store = [Object [(''passProps'', Ref 1)],
                    Object [(''titleColor'', Null), (''searchBar'', Bool True)],
                    Object [(''passProps'', Ref 1)]], trace = [], ids = 0\<rparr> =
        Inr \<lparr>store = [Object [(''passProps'', Ref 1)],
                 Object [(''titleColor'', Null), (''searchBar'', Bool True)],
                 Object [(''passProps'', Ref 1)]],
        trace =
          [GetProcessors (KStr ''passProps''),
           OnProcessOptions (KStr ''passProps'') (Ref 2) ''setRoot''
             [Object [(''passProps'', Ref 1)],
              Object [(''titleColor'', Null), (''searchBar'', Bool True)],
              Object [(''passProps'', Ref 1)]],
           CheckForDeprecatedOptions (Ref 2)
             [Object [(''passProps'', Ref 1)],
              Object [(''titleColor'', Null), (''searchBar'', Bool True)],
              Object [(''passProps'', Ref 1)]]],
        ids = 0\<rparr>"
    by (simp add: passProps_not_walked processWithRegisteredProcessor_def
        withProcessors_services standardHook_def emit_def slot_def look_def
        resolveObjectPath_def Let_def)
  then show ?thesis
    by (simp add: processOptions_def exState_def look_def bindE_def numeral_2_eq_2)
qed

section \<open>Spreading one object over another\<close>

lemma assignProp_fresh: "k \<notin> fst ` set ps \<Longrightarrow> assignProp ps k v = ps @ [(k, v)]"
  by (induction ps) auto

lemma assignProp_keys:
  "map fst (assignProp ps k v) = (if k \<in> fst ` set ps then map fst ps else map fst ps @ [k])"
  by (induction ps) force+

lemma assignProp_hit:
  "k \<notin> fst ` set P \<Longrightarrow> assignProp (P @ (k, d) # D) k v = P @ (k, v) # D"
  by (induction P) auto

lemma spread_append: "spread base (xs @ ys) = spread (spread base xs) ys"
  by (simp add: spread_def)

lemma spread_Cons: "spread base ((k, v) # ps) = spread (assignProp base k v) ps"
  by (simp add: spread_def)

lemma spread_Nil [simp]: "spread base [] = base"
  by (simp add: spread_def)

text \<open>Spreading over a list that has the same keys, in the same order, replaces it.\<close>

lemma spread_same_keys:
  "map fst D = map fst E \<Longrightarrow> distinct (map fst (P @ E)) \<Longrightarrow> spread (P @ D) E = P @ E"
proof (induction E arbitrary: P D)
  case Nil
  then show ?case by simp
next
  case (Cons e E)
  obtain k v where e: "e = (k, v)" by (cases e)
  from Cons.prems(1) e obtain d D' where D: "D = (k, d) # D'" and keys: "map fst D' = map fst E"
    by (cases D) auto
  from Cons.prems(2) e have fresh: "k \<notin> fst ` set P"
    by auto
  have dist: "distinct (map fst ((P @ [(k, v)]) @ E))"
    using Cons.prems(2) e by simp
  have "spread (P @ D) (e # E) = spread ((P @ [(k, v)]) @ D') E"
    using fresh by (simp add: e D spread_Cons assignProp_hit)
  also have "\<dots> = (P @ [(k, v)]) @ E"
    using Cons.IH [OF keys dist] .
  finally show ?case by (simp add: e)
qed

lemma spread_fresh: "distinct (map fst (E @ R)) \<Longrightarrow> spread E R = E @ R"
proof (induction R arbitrary: E)
  case Nil
  then show ?case by simp
next
  case (Cons r R)
  obtain k v where r: "r = (k, v)" by (cases r)
  have fresh: "k \<notin> fst ` set E"
    using Cons.prems r by auto
  have "distinct (map fst ((E @ [(k, v)]) @ R))"
    using Cons.prems r by simp
  from Cons.IH [OF this] show ?case
    using fresh by (simp add: r spread_Cons assignProp_fresh)
qed

lemma assignProp_distinct: "distinct (map fst ps) \<Longrightarrow> distinct (map fst (assignProp ps k v))"
  by (simp add: assignProp_keys)

lemma assignProp_prefix:
  "length D \<le> length ps \<Longrightarrow>
   map fst (take (length D) (assignProp ps k v)) = map fst (take (length D) ps)"
  by (simp add: take_map [symmetric] assignProp_keys)

lemma assignProp_length: "length ps \<le> length (assignProp ps k v)"
  by (induction ps) auto

lemma spread_shape:
  "distinct (map fst base) \<Longrightarrow> length D \<le> length base \<Longrightarrow>
   distinct (map fst (spread base ps)) \<and> length D \<le> length (spread base ps) \<and>
   map fst (take (length D) (spread base ps)) = map fst (take (length D) base)"
proof (induction ps arbitrary: base)
  case Nil
  then show ?case by simp
next
  case (Cons q ps)
  obtain k v where q: "q = (k, v)" by (cases q)
  have 1: "distinct (map fst (assignProp base k v))"
    using Cons.prems(1) by (rule assignProp_distinct)
  have 2: "length D \<le> length (assignProp base k v)"
    using Cons.prems(2) assignProp_length [of base k v] by simp
  from Cons.IH [OF 1 2] show ?case
    using Cons.prems(2) by (simp add: q spread_Cons assignProp_prefix)
qed

text \<open>Spreading a list over defaults whose keys it starts with gives the list back.\<close>

lemma spread_over_prefix:
  assumes "distinct (map fst L)" and "length D \<le> length L"
    and "map fst (take (length D) L) = map fst D"
  shows "spread D L = L"
proof -
  let ?E = "take (length D) L" and ?R = "drop (length D) L"
  have "spread D ?E = ?E"
    using spread_same_keys [of D ?E "[]"] assms(1,3)
    by (metis append_Nil append_take_drop_id distinct_append map_append)
  moreover have "spread ?E ?R = ?E @ ?R"
    using spread_fresh [of ?E ?R] assms(1) by simp
  ultimately have "spread D (?E @ ?R) = ?E @ ?R"
    by (simp only: spread_append)
  then show ?thesis by (simp only: append_take_drop_id)
qed

section \<open>The search bar, applied twice\<close>

lemma deprecated_keys:
  "map fst (deprecatedSearchBarOptions h opts) = searchBarKeys"
  "length (deprecatedSearchBarOptions h opts) = 7"
  "distinct searchBarKeys"
  by (simp_all add: deprecatedSearchBarOptions_def searchBarKeys_def)

lemma storeNewObject_length [simp]:
  "length (store (storeNewObject opts key props st)) = Suc (length (store st))"
  by (simp add: storeNewObject_def)

text \<open>The object that the transform stores: its keys are distinct and begin with the
  keys of the defaults.\<close>

lemma searchBar_result:
  assumes "opts < length (store st)"
  shows "\<exists>L st0. processSearchBar (KStr ''searchBar'') val opts st =
                   storeNewObject opts (KStr ''searchBar'') L st0 \<and>
                 store st0 = store st \<and>
                 distinct (map fst L) \<and> 7 \<le> length L \<and>
                 map fst (take 7 L) = searchBarKeys"
proof (cases "\<exists>b. val = Bool b")
  case True
  then obtain b where b: "val = Bool b" by blast
  show ?thesis
    unfolding b
    by (rule exI [of _ "assignProp (deprecatedSearchBarOptions (store st) opts) ''visible'' (Bool b)"],
        rule exI [of _ "emit (OnProcessOptions (KStr ''searchBar'') (Ref opts) [] (store st)) st"])
       (simp add: processSearchBar_def deprecatedSearchBarOptions_def searchBarKeys_def)
next
  case False
  let ?D = "deprecatedSearchBarOptions (store st) opts"
  let ?L = "spread ?D (ownProps (store st) val)"
  have shape: "distinct (map fst ?L) \<and> length ?D \<le> length ?L \<and>
               map fst (take (length ?D) ?L) = map fst (take (length ?D) ?D)"
    using spread_shape [of ?D ?D "ownProps (store st) val"]
    by (simp add: deprecated_keys)
  have eq: "processSearchBar (KStr ''searchBar'') val opts st =
          storeNewObject opts (KStr ''searchBar'') ?L st"
    using False by (cases val) (simp_all add: processSearchBar_def)
  show ?thesis
    using shape eq by (auto simp: deprecated_keys)
qed

text \<open>
  C9 (confirmed). Let the search-bar transform run on any value of the key
  \<^verbatim>\<open>searchBar\<close>, and then run again, on the same node, on the object that the first run
  stored. The second run stores a new object with exactly the properties of the first, in
  the same order and with the same values: every default that the second run rebuilds is
  overridden by the incoming field of the same name.
\<close>

theorem searchBar_idempotent:
  assumes "opts < length (store st)"
    and "st1 = processSearchBar (KStr ''searchBar'') val opts st"
    and "st2 = processSearchBar (KStr ''searchBar'') (slot (store st1) opts (KStr ''searchBar''))
                 opts st1"
  shows "slot (store st1) opts (KStr ''searchBar'') = Ref (length (store st)) \<and>
         slot (store st2) opts (KStr ''searchBar'') = Ref (Suc (length (store st))) \<and>
         look (store st2) (Suc (length (store st))) = look (store st1) (length (store st))"
proof -
  obtain L st0 where st1: "st1 = storeNewObject opts (KStr ''searchBar'') L st0"
    and st0: "store st0 = store st"
    and L: "distinct (map fst L)" "7 \<le> length L" "map fst (take 7 L) = searchBarKeys"
    using searchBar_result [OF assms(1), of val] assms(2) by auto
  have opts0: "opts < length (store st0)"
    using assms(1) st0 by simp
  have slot1: "slot (store st1) opts (KStr ''searchBar'') = Ref (length (store st))"
    using storeNewObject_slot [OF opts0] st1 st0 by simp
  have look1: "look (store st1) (length (store st)) = Object L"
    using storeNewObject_look [OF opts0] st1 st0 by simp
  have len1: "length (store st1) = Suc (length (store st))"
    using st1 st0 by simp
  have opts1: "opts < length (store st1)"
    using assms(1) len1 by simp
  let ?D = "deprecatedSearchBarOptions (store st1) opts"
  have own: "ownProps (store st1) (Ref (length (store st))) = L"
    using look1 by simp
  have again: "spread ?D L = L"
    using spread_over_prefix [of L ?D] L by (simp add: deprecated_keys)
  have st2: "st2 = storeNewObject opts (KStr ''searchBar'') L st1"
    using assms(3) slot1 own again by (simp add: processSearchBar_def)
  have slot2: "slot (store st2) opts (KStr ''searchBar'') = Ref (Suc (length (store st)))"
    using storeNewObject_slot [OF opts1] st2 len1 by simp
  have look2: "look (store st2) (Suc (length (store st))) = Object L"
    using storeNewObject_look [OF opts1] st2 len1 by simp
  from slot1 slot2 look1 look2 show ?thesis by simp
qed

text \<open>\<^verbatim>\<open>{ searchBar: { visible: true, placeholder: 'Find', text: 'x' } }\<close>, transformed
  twice.\<close>

theorem searchBar_idempotent_witness:
  "look (store (processSearchBar (KStr ''searchBar'') (Ref 2) 0
                  (processSearchBar (KStr ''searchBar'') (Ref 1) 0
                     (exState [Object [(''searchBar'', Ref 1)],
                               Object [(''visible'', Bool True), (''placeholder'', Str ''Find''),
                                       (''text'', Str ''x'')]])))) 3 =
   Object [(''visible'', Bool True), (''hideOnScroll'', Bool False),
           (''hideTopBarOnFocus'', Bool False),
           (''obscuresBackgroundDuringPresentation'', Bool False),
           (''backgroundColor'', Undefined), (''tintColor'', Undefined),
           (''placeholder'', Str ''Find''), (''text'', Str ''x'')]"
proof -
  let ?st = "exState [Object [(''searchBar'', Ref 1)],
                      Object [(''visible'', Bool True), (''placeholder'', Str ''Find''),
                              (''text'', Str ''x'')]]"
  have a: "0 < length (store ?st)"
    by (simp add: exState_def)
  have b: "look (store (processSearchBar (KStr ''searchBar'') (Ref 1) 0 ?st)) 2 =
           Object [(''visible'', Bool True), (''hideOnScroll'', Bool False),
           (''hideTopBarOnFocus'', Bool False),
           (''obscuresBackgroundDuringPresentation'', Bool False),
           (''backgroundColor'', Undefined), (''tintColor'', Undefined),
           (''placeholder'', Str ''Find''), (''text'', Str ''x'')]"
    by (simp add: processSearchBar_def storeNewObject_def deprecatedSearchBarOptions_def
        coalesce_def spread_def exState_def slot_def setSlot_def look_def)
  note twice = searchBar_idempotent [OF a refl refl, where val = "Ref 1"]
  have c: "slot (store (processSearchBar (KStr ''searchBar'') (Ref 1) 0 ?st)) 0 (KStr ''searchBar'') =
           Ref 2"
    using twice by (simp add: exState_def numeral_2_eq_2)
  have "look (store (processSearchBar (KStr ''searchBar'') (Ref 2) 0
                       (processSearchBar (KStr ''searchBar'') (Ref 1) 0 ?st))) 3 =
        look (store (processSearchBar (KStr ''searchBar'') (Ref 1) 0 ?st)) 2"
    using twice unfolding c by (simp add: exState_def numeral_2_eq_2 numeral_3_eq_3)
  then show ?thesis
    using b by simp
qed

section \<open>The animation shorthands\<close>

lemma getOwn_setOwn_name:
  "getOwn (setOwn ob (KStr k) v) (KStr k') = (if k' = k then v else getOwn ob (KStr k'))"
  by (cases ob) (simp_all add: lookupProp_assignProp)

lemma slot_setSlot_name:
  "a < length h \<Longrightarrow>
   slot (setSlot h a (KStr k) v) b (KStr k') =
     (if b = a \<and> k' = k then v else slot h b (KStr k'))"
  by (simp add: slot_def look_setSlot getOwn_setOwn_name)

lemma slot_append1: "a < length h \<Longrightarrow> slot (h @ [ob]) a k = slot h a k"
  by (simp add: slot_def look_append)

text \<open>
  C2 (corrected). As stated the claim fails: \<^verbatim>\<open>processPush\<close> does not replace the value
  of \<^verbatim>\<open>push\<close> by \<^verbatim>\<open>{ content: { enter: v } }\<close> with \<^verbatim>\<open>v\<close> the whole value (that is
  what \<^verbatim>\<open>processSetStackRoot\<close> does for its key); it assigns to the \<^verbatim>\<open>content\<close> field of
  the object under \<^verbatim>\<open>push\<close>. What holds: when the value has neither \<^verbatim>\<open>content.enter\<close>
  nor \<^verbatim>\<open>content.exit\<close>, the object under \<^verbatim>\<open>push\<close> stays the same object, its
  \<^verbatim>\<open>content\<close> becomes a new object \<^verbatim>\<open>{ enter: c }\<close> where \<^verbatim>\<open>c\<close> is the \<^verbatim>\<open>content\<close> of
  the original value (\<^verbatim>\<open>undefined\<close> if it has none), and every other property of it, and
  of every other object, is unchanged; when one of the two is present, nothing changes.
\<close>

theorem push_wraps_content:
  assumes "slot (store st) opts (KStr ''push'') = Ref p"
    and "p < length (store st)"
    and "getField (store st) animation ''content'' = Inr c"
  shows "\<exists>st'. processPush (KStr ''push'') animation opts st = Inr st' \<and>
           trace st' = trace st \<and>
           (if has2 (store st) animation ''content'' ''enter'' \<or>
               has2 (store st) animation ''content'' ''exit''
            then st' = st
            else slot (store st') p (KStr ''content'') = Ref (length (store st)) \<and>
                 look (store st') (length (store st)) = Object [(''enter'', c)] \<and>
                 (\<forall>q name. q < length (store st) \<and> (q, name) \<noteq> (p, ''content'') \<longrightarrow>
                    slot (store st') q (KStr name) = slot (store st) q (KStr name)))"
  using assms
  by (auto simp: processPush_def bindE_def slot_setSlot_name look_setSlot look_append slot_append1)

text \<open>\<^verbatim>\<open>{ push: { content: { alpha: 1 } } }\<close> becomes
  \<^verbatim>\<open>{ push: { content: { enter: { alpha: 1 } } } }\<close>.\<close>

theorem push_wraps_content_witness:
  "processPush (KStr ''push'') (Ref 1) 0
     (exState [Object [(''push'', Ref 1)], Object [(''content'', Ref 2)],
               Object [(''alpha'', Num 1)]]) =
   Inr \<lparr>store = [Object [(''push'', Ref 1)], Object [(''content'', Ref 3)],
                 Object [(''alpha'', Num 1)], Object [(''enter'', Ref 2)]],
        trace = [], ids = 0\<rparr>"
proof -
  let ?st = "exState [Object [(''push'', Ref 1)], Object [(''content'', Ref 2)],
                      Object [(''alpha'', Num 1)]]"
  have a: "slot (store ?st) 0 (KStr ''push'') = Ref 1"
    by (simp add: exState_def slot_def look_def)
  have b: "1 < length (store ?st)"
    by (simp add: exState_def)
  have c: "getField (store ?st) (Ref 1) ''content'' = Inr (Ref 2)"
    by (simp add: exState_def slot_def look_def)
  show ?thesis
    using push_wraps_content [OF a b c]
    by (simp add: walk_defs)
qed

text \<open>The walk of \<^verbatim>\<open>{ push: { alpha: 1 } }\<close>: afterwards the entry is
  \<^verbatim>\<open>{ alpha: 1, content: { enter: undefined } }\<close>, not
  \<^verbatim>\<open>{ content: { enter: { alpha: 1 } } }\<close>.\<close>

theorem push_wrap_counterexample:
  "map_sum id (\<lambda>st. shapeOf 3 (store st) (slot (store st) 0 (KStr ''push'')))
     (processOptions 3 exServices 0 ''setRoot''
        (exState [Object [(''push'', Ref 1)], Object [(''alpha'', Num 1)]])) =
   Inr (SObject [(''alpha'', SNum 1), (''content'', SObject [(''enter'', SUndefined)])]) \<and>
   SObject [(''alpha'', SNum 1), (''content'', SObject [(''enter'', SUndefined)])] \<noteq>
   SObject [(''content'', SObject [(''enter'', SObject [(''alpha'', SNum 1)])])]"
  by (simp add: walk_defs eval_nat_numeral)








section \<open>The snapshot is a shallow clone\<close>

lemma lookupProp_in: "lookupProp ps k = Undefined \<or> lookupProp ps k \<in> snd ` set ps"
  by (induction ps) force+

lemma getOwn_in: "getOwn ob k = Undefined \<or> getOwn ob k \<in> set (valuesOf ob)"
proof (cases ob)
  case (Object ps)
  then show ?thesis using lookupProp_in [of ps "keyName k"] by auto
next
  case (Array es xs)
  then show ?thesis using lookupProp_in [of xs] by (cases k) auto
qed

lemma look_in: "look h a = Object [] \<or> look h a \<in> set h"
  by (simp add: look_def)

lemma good_slot: "fresh c h \<Longrightarrow> slot h a k \<noteq> Ref c"
  using getOwn_in [of "look h a" k] look_in [of h a]
  by (auto simp: fresh_def unreferenced_def slot_def)

lemma assignProp_values: "snd ` set (assignProp ps k v) \<subseteq> insert v (snd ` set ps)"
proof (induction ps)
  case Nil
  then show ?case by simp
next
  case (Cons q ps)
  obtain k' v' where q: "q = (k', v')" by (cases q)
  show ?case
    using Cons by (auto simp: q)
qed

lemma setOwn_values: "set (valuesOf (setOwn ob k v)) \<subseteq> insert v (insert Undefined (set (valuesOf ob)))"
proof (cases ob)
  case (Object ps)
  then show ?thesis using assignProp_values [of ps "keyName k" v] by auto
next
  case (Array es xs)
  show ?thesis
  proof (cases k)
    case (KStr s)
    then show ?thesis using Array assignProp_values [of xs s v] by auto
  next
    case (KNum i)
    then show ?thesis using Array set_update_subset_insert [of es i v] by auto
  qed
qed

lemma good_setSlot:
  assumes "fresh c h" and "a \<noteq> c" and "v \<noteq> Ref c"
  shows "fresh c (setSlot h a k v)" and "look (setSlot h a k v) c = look h c"
proof -
  have "Ref c \<notin> set (valuesOf (look h a))"
    using assms(1) look_in [of h a] by (auto simp: fresh_def unreferenced_def)
  then have "Ref c \<notin> set (valuesOf (setOwn (look h a) k v))"
    using setOwn_values [of "look h a" k v] assms(3) by auto
  then show "fresh c (setSlot h a k v)"
    using assms(1) set_update_subset_insert [of h a "setOwn (look h a) k v"]
    by (auto simp: fresh_def unreferenced_def setSlot_def)
  show "look (setSlot h a k v) c = look h c"
    using assms(2) by (simp add: look_setSlot)
qed

lemma good_append:
  assumes "fresh c h" and "Ref c \<notin> set (valuesOf ob)"
  shows "fresh c (h @ [ob])" and "look (h @ [ob]) c = look h c"
  using assms by (auto simp: fresh_def unreferenced_def look_append)

lemma good_fresh: "fresh c h \<Longrightarrow> Ref (length h) \<noteq> Ref c"
  by (simp add: fresh_def)

lemma good_getField: "fresh c h \<Longrightarrow> getField h w name = Inr v \<Longrightarrow> v \<noteq> Ref c"
  using good_slot by (cases w) auto

lemma good_setField:
  assumes "fresh c h" and "w \<noteq> Ref c" and "v \<noteq> Ref c" and "setField h w name v = Inr h'"
  shows "fresh c h'" and "look h' c = look h c"
  using assms good_setSlot [of c h _ v "KStr name"]
  by (cases w; auto)+

lemma inv_store:
  "walkInv c ob n st \<Longrightarrow> fresh c h' \<Longrightarrow> look h' c = look (store st) c \<Longrightarrow>
   walkInv c ob n (st\<lparr>store := h'\<rparr>)"
  by (simp add: walkInv_def)

lemma inv_emit: "walkInv c ob n st \<Longrightarrow> snapshotSeen c ob e \<Longrightarrow> walkInv c ob n (emit e st)"
  by (auto simp: walkInv_def dest: in_set_dropD)

lemma inv_ids [simp]: "walkInv c ob n (st\<lparr>ids := i\<rparr>) = walkInv c ob n st"
  by (simp add: walkInv_def)

lemma inv_good: "walkInv c ob n st \<Longrightarrow> fresh c (store st)"
  by (simp add: walkInv_def)


lemma inv_setSlot:
  "walkInv c ob n st \<Longrightarrow> a \<noteq> c \<Longrightarrow> v \<noteq> Ref c \<Longrightarrow> h = store st \<Longrightarrow>
   walkInv c ob n (st\<lparr>store := setSlot h a k v\<rparr>)"
  using good_setSlot [of c "store st" a v k] by (simp add: walkInv_def)

lemma inv_slot: "walkInv c ob n st \<Longrightarrow> slot (store st) a k \<noteq> Ref c"
  using good_slot by (simp add: walkInv_def)

lemma inv_storeNewObject:
  assumes "walkInv c ob n st" and "opts \<noteq> c" and "Ref c \<notin> snd ` set props"
  shows "walkInv c ob n (storeNewObject opts key props st)"
proof -
  have g: "fresh c (store st)" using assms(1) by (rule inv_good)
  have 1: "fresh c (store st @ [Object props])"
    and 2: "look (store st @ [Object props]) c = look (store st) c"
    using good_append [OF g, of "Object props"] assms(3) by simp_all
  have 3: "fresh c (setSlot (store st @ [Object props]) opts key (Ref (length (store st))))"
    and 4: "look (setSlot (store st @ [Object props]) opts key (Ref (length (store st)))) c =
            look (store st @ [Object props]) c"
    using good_setSlot [OF 1 assms(2), of "Ref (length (store st))" key] good_fresh [OF g]
    by simp_all
  show ?thesis
    unfolding storeNewObject_def
    using inv_store [OF assms(1) 3] 2 4 by simp
qed

lemma inv_applyProcessors:
  assumes "opts \<noteq> c" and "\<forall>p \<in> set ps. p val cmd \<noteq> Ref c"
  shows "walkInv c ob n st \<Longrightarrow> walkInv c ob n (applyProcessors key val opts cmd i ps st)"
  using assms(2)
proof (induction ps arbitrary: i st)
  case Nil
  then show ?case by simp
next
  case (Cons p ps)
  have "walkInv c ob n (emit (CallProcessor i val cmd) st)"
    using Cons.prems(1) by (simp add: inv_emit)
  then have "walkInv c ob n ((emit (CallProcessor i val cmd) st)
                 \<lparr>store := setSlot (store st) opts key (p val cmd)\<rparr>)"
    using assms(1) Cons.prems(2) by (auto intro!: inv_setSlot)
  then show ?case
    using Cons.IH Cons.prems(2) by simp
qed

lemma inv_registry:
  assumes "walkInv c ob n st" and "opts \<noteq> c" and "safeServices c sv" and "val \<noteq> Ref c"
  shows "walkInv c ob n (processWithRegisteredProcessor sv key val opts path cmd st)"
proof (cases "getProcessors sv path")
  case None
  then show ?thesis
    using assms(1) by (simp add: processWithRegisteredProcessor_def inv_emit)
next
  case (Some ps)
  have "\<forall>p \<in> set ps. p val cmd \<noteq> Ref c"
    using assms(3,4) Some by (simp add: safeServices_def)
  then show ?thesis
    using Some assms(1,2)
      inv_applyProcessors [where opts = opts and c = c and ps = ps and ob = ob and n = n
        and st = "emit (GetProcessors path) st" and val = val and cmd = cmd]
    by (simp add: processWithRegisteredProcessor_def inv_emit)
qed

lemma inv_processColor:
  assumes "walkInv c ob n st" and "opts \<noteq> c" and "safeServices c sv" and "val \<noteq> Ref c"
  shows "walkInv c ob n (processColor sv key val opts st)"
proof -
  have "toNativeColor sv val \<noteq> Ref c"
    using assms(3,4) by (simp add: safeServices_def)
  then show ?thesis
    using assms(1,2)
    by (auto simp: processColor_def intro!: inv_setSlot inv_emit)
qed

lemma inv_processImage:
  assumes "walkInv c ob n st" and "opts \<noteq> c" and "safeServices c sv" and "val \<noteq> Ref c"
  shows "walkInv c ob n (processImage sv key val opts st)"
proof -
  have "resolveFromRequire sv val \<noteq> Ref c"
    using assms(3,4) by (simp add: safeServices_def)
  then show ?thesis
    using assms(1,2,4)
    by (auto simp: processImage_def intro!: inv_setSlot inv_emit)
qed

lemma inv_setField:
  assumes "walkInv c ob n st" and "w \<noteq> Ref c" and "v \<noteq> Ref c"
    and "setField (store st) w name v = Inr h'"
  shows "walkInv c ob n (st\<lparr>store := h'\<rparr>)"
  using good_setField [OF inv_good [OF assms(1)] assms(2,3,4)] inv_store [OF assms(1)]
  by simp

lemma inv_getField: "walkInv c ob n st \<Longrightarrow> getField (store st) w name = Inr v \<Longrightarrow> v \<noteq> Ref c"
  using good_getField inv_good by blast

lemma bindE_Inr: "bindE m f = Inr y \<Longrightarrow> \<exists>x. m = Inr x \<and> f x = Inr y"
  by (cases m) (simp_all add: bindE_def)

lemma inv_processButton:
  assumes "walkInv c ob n st" and "button \<noteq> Ref c" and "processButton button st = Inr st'"
  shows "walkInv c ob n st'"
proof -
  from assms(3) obtain pp where pp: "getField (store st) button ''passProps'' = Inr pp"
    and r1: "(if truthy pp
       then bindE (getField (store st) button ''id'') (\<lambda>bid.
              if truthy bid
              then bindE (setField (store st) button ''passProps'' Undefined) (\<lambda>h.
                     Inr ((emit (UpdateProps bid pp) st)\<lparr>store := h\<rparr>))
              else Inr st)
       else Inr st) = Inr st'"
    unfolding processButton_def by (auto dest!: bindE_Inr)
  show ?thesis
  proof (cases "truthy pp")
    case False
    then show ?thesis using r1 assms(1) by simp
  next
    case True
    with r1 obtain bid where bid: "getField (store st) button ''id'' = Inr bid"
      and r2: "(if truthy bid
              then bindE (setField (store st) button ''passProps'' Undefined) (\<lambda>h.
                     Inr ((emit (UpdateProps bid pp) st)\<lparr>store := h\<rparr>))
              else Inr st) = Inr st'"
      by (auto dest!: bindE_Inr)
    show ?thesis
    proof (cases "truthy bid")
      case False
      then show ?thesis using r2 assms(1) by simp
    next
      case True
      with r2 obtain h where h: "setField (store st) button ''passProps'' Undefined = Inr h"
        and st': "st' = (emit (UpdateProps bid pp) st)\<lparr>store := h\<rparr>"
        by (auto dest!: bindE_Inr)
      have "walkInv c ob n (emit (UpdateProps bid pp) st)"
        using assms(1) by (simp add: inv_emit)
      then show ?thesis
        using inv_setField [of c ob n "emit (UpdateProps bid pp) st" button Undefined "''passProps''" h]
          assms(2) h st' by simp
    qed
  qed
qed

lemma element_not_ref: "fresh c h \<Longrightarrow> element h val k \<noteq> Ref c"
  using good_slot by (cases val; cases k) auto

lemma inv_eachButton:
  "walkInv c ob n st \<Longrightarrow> eachButton val ks st = Inr st' \<Longrightarrow> walkInv c ob n st'"
proof (induction ks arbitrary: st)
  case Nil
  then show ?case by simp
next
  case (Cons k ks)
  from Cons.prems(2) obtain st1 where
    1: "processButton (element (store st) val k) st = Inr st1"
    and 2: "eachButton val ks st1 = Inr st'"
    by (auto dest!: bindE_Inr)
  have "walkInv c ob n st1"
    using inv_processButton [OF Cons.prems(1) _ 1] element_not_ref [OF inv_good [OF Cons.prems(1)]]
    by simp
  then show ?case using Cons.IH 2 by simp
qed

lemma inv_processButtonsPassProps:
  "walkInv c ob n st \<Longrightarrow> processButtonsPassProps key val st = Inr st' \<Longrightarrow> walkInv c ob n st'"
  using inv_eachButton by (auto simp: processButtonsPassProps_def split: if_splits)


lemma inv_processComponent:
  assumes "walkInv c ob n st" and "val \<noteq> Ref c"
    and "processComponent sv key val opts st = Inr st'"
  shows "walkInv c ob n st'"
proof (cases "key = KStr ''component''")
  case False
  then show ?thesis using assms(1,3) by (simp add: processComponent_def)
next
  case True
  define st1 where "st1 = (\<lambda>vid. if truthy vid then st
                   else (emit (Generate ''CustomComponent'') st)\<lparr>ids := Suc (ids st)\<rparr>)"
  define cid where "cid = (\<lambda>vid. if truthy vid then vid
                   else Str (generate sv ''CustomComponent'' (ids st)))"
  from assms(3) True obtain vid h1 nm pp cid' h2 where
    vid: "getField (store st) val ''id'' = Inr vid"
    and h1: "setField (store (st1 vid)) val ''componentId'' (cid vid) = Inr h1"
    and pp: "getField h1 val ''passProps'' = Inr pp"
    and cid': "getField h1 val ''componentId'' = Inr cid'"
    and h2: "setField h1
               (slot h1 opts key) ''passProps'' Undefined = Inr h2"
    and st': "st' = (if truthy pp
                     then emit (UpdateProps cid' pp) (emit (EnsureClassForName nm) (st1 vid\<lparr>store := h1\<rparr>))
                     else emit (EnsureClassForName nm) (st1 vid\<lparr>store := h1\<rparr>))\<lparr>store := h2\<rparr>"
    unfolding processComponent_def st1_def cid_def Let_def
    by (auto dest!: bindE_Inr split: if_splits)
  have i1: "walkInv c ob n (st1 vid)"
    using assms(1) by (simp add: st1_def inv_emit)
  have "cid vid \<noteq> Ref c"
    using inv_getField [OF assms(1) vid] by (simp add: cid_def)
  then have i2: "walkInv c ob n (st1 vid\<lparr>store := h1\<rparr>)"
    using inv_setField [OF i1 assms(2) _ h1] by simp
  let ?st3 = "if truthy pp
              then emit (UpdateProps cid' pp) (emit (EnsureClassForName nm) (st1 vid\<lparr>store := h1\<rparr>))
              else emit (EnsureClassForName nm) (st1 vid\<lparr>store := h1\<rparr>)"
  have i3: "walkInv c ob n ?st3"
    using i2 by (simp add: inv_emit)
  have s3: "store ?st3 = h1"
    by simp
  have "slot h1 opts key \<noteq> Ref c"
    using inv_slot [OF i3] s3 by simp
  then show ?thesis
    using inv_setField [OF i3, of "slot h1 opts key" Undefined "''passProps''" h2] h2 s3 st'
    by simp
qed

lemma spread_values: "snd ` set (spread base ps) \<subseteq> snd ` set base \<union> snd ` set ps"
proof (induction ps arbitrary: base)
  case Nil
  then show ?case by (simp add: spread_def)
next
  case (Cons q ps)
  obtain k v where q: "q = (k, v)" by (cases q)
  have "snd ` set (spread base (q # ps)) = snd ` set (spread (assignProp base k v) ps)"
    by (simp add: q spread_def)
  also have "\<dots> \<subseteq> snd ` set (assignProp base k v) \<union> snd ` set ps"
    by (rule Cons.IH)
  also have "\<dots> \<subseteq> snd ` set base \<union> snd ` set (q # ps)"
    using assignProp_values [of base k v] by (auto simp: q)
  finally show ?case .
qed

lemma ownProps_values: "fresh c h \<Longrightarrow> Ref c \<notin> snd ` set (ownProps h val)"
proof (cases val)
  case (Ref a)
  assume g: "fresh c h"
  have "Ref c \<notin> set (valuesOf (look h a))"
    using g look_in [of h a] by (auto simp: fresh_def unreferenced_def)
  then show ?thesis
    using Ref by (cases "look h a") (auto dest!: set_zip_rightD)
next
  case (Str s)
  then show ?thesis by (auto dest!: set_zip_rightD)
qed simp_all

lemma deprecated_values:
  assumes "fresh c h"
  shows "Ref c \<notin> snd ` set (deprecatedSearchBarOptions h opts)"
proof -
  have "Ref c \<noteq> slot h opts k" for k
    using good_slot [OF assms, of opts k] by auto
  then show ?thesis
    by (simp add: deprecatedSearchBarOptions_def coalesce_def)
qed

lemma inv_processSearchBar:
  assumes "walkInv c ob n st" and "opts \<noteq> c"
  shows "walkInv c ob n (processSearchBar key val opts st)"
proof (cases "key = KStr ''searchBar''")
  case False
  then show ?thesis using assms(1) by (simp add: processSearchBar_def)
next
  case True
  have g: "fresh c (store st)" using assms(1) by (rule inv_good)
  let ?D = "deprecatedSearchBarOptions (store st) opts"
  have d: "Ref c \<notin> snd ` set ?D" using g by (rule deprecated_values)
  show ?thesis
  proof (cases "\<exists>b. val = Bool b")
    case True
    then obtain b where b: "val = Bool b" by blast
    have "Ref c \<notin> snd ` set (assignProp ?D ''visible'' (Bool b))"
      using d assignProp_values [of ?D "''visible''" "Bool b"] by auto
    moreover have "walkInv c ob n (emit (OnProcessOptions key (Ref opts) [] (store st)) st)"
      using assms by (simp add: inv_emit)
    ultimately show ?thesis
      using \<open>key = KStr ''searchBar''\<close> assms(2) b
      by (simp add: processSearchBar_def inv_storeNewObject)
  next
    case False
    have "Ref c \<notin> snd ` set (spread ?D (ownProps (store st) val))"
      using d ownProps_values [OF g, of val] spread_values [of ?D "ownProps (store st) val"]
      by auto
    then have "walkInv c ob n (storeNewObject opts key (spread ?D (ownProps (store st) val)) st)"
      using assms by (simp add: inv_storeNewObject)
    then show ?thesis
      using \<open>key = KStr ''searchBar''\<close> False
      by (cases val) (simp_all add: processSearchBar_def)
  qed
qed

lemma inv_processInterpolation:
  assumes "walkInv c ob n st" and "opts \<noteq> c"
  shows "walkInv c ob n (processInterpolation key val opts st)"
proof -
  have "walkInv c ob n (emit (OnProcessOptions k (Ref opts) [] (store st)) st)" for k
    using assms by (simp add: inv_emit)
  moreover have "Ref c \<noteq> slot (store st) opts k" for k
    using inv_slot [OF assms(1), of opts k] by auto
  ultimately show ?thesis
    using assms by (simp add: processInterpolation_def inv_storeNewObject)
qed

lemma inv_processSetStackRoot:
  assumes "walkInv c ob n st" and "opts \<noteq> c" and "val \<noteq> Ref c"
  shows "walkInv c ob n (processSetStackRoot key val opts st)"
proof -
  have g: "fresh c (store st)" using assms(1) by (rule inv_good)
  let ?h1 = "store st @ [Object [(''content'', Ref (Suc (length (store st))))]]"
  let ?h2 = "?h1 @ [Object [(''enter'', val)]]"
  have c: "c < length (store st)" using g by (simp add: fresh_def)
  have 1: "fresh c ?h1" and 2: "look ?h1 c = look (store st) c"
    using good_append [OF g, of "Object [(''content'', Ref (Suc (length (store st))))]"] c
    by simp_all
  have 3: "fresh c ?h2" and 4: "look ?h2 c = look ?h1 c"
    using good_append [OF 1, of "Object [(''enter'', val)]"] assms(3) by simp_all
  have 5: "fresh c (setSlot ?h2 opts k (Ref (length (store st))))"
    and 6: "look (setSlot ?h2 opts k (Ref (length (store st)))) c = look ?h2 c" for k
    using good_setSlot [OF 3 assms(2), of "Ref (length (store st))" k] c by simp_all
  have "walkInv c ob n (st\<lparr>store := setSlot ?h2 opts k (Ref (length (store st)))\<rparr>)" for k
    using inv_store [OF assms(1) 5] 2 4 6 by simp
  then show ?thesis
    using assms(1) by (simp add: processSetStackRoot_def)
qed

lemma inv_wrap:
  assumes "walkInv c ob n st" and "val \<noteq> Ref c"
    and "bindE (getField (store st) val ''content'') (\<lambda>x.
           bindE (setField (store st @ [Object [(name, x)]])
                    (slot (store st) opts key) ''content'' (Ref (length (store st)))) (\<lambda>h.
           Inr (st\<lparr>store := h\<rparr>))) = Inr st'"
  shows "walkInv c ob n st'"
proof -
  from assms(3) obtain x h where x: "getField (store st) val ''content'' = Inr x"
    and h: "setField (store st @ [Object [(name, x)]])
              (slot (store st) opts key) ''content'' (Ref (length (store st))) = Inr h"
    and st': "st' = st\<lparr>store := h\<rparr>"
    by (auto dest!: bindE_Inr)
  have g: "fresh c (store st)" using assms(1) by (rule inv_good)
  have "x \<noteq> Ref c" using inv_getField [OF assms(1) x] .
  then have 1: "fresh c (store st @ [Object [(name, x)]])"
    and 2: "look (store st @ [Object [(name, x)]]) c = look (store st) c"
    using good_append [OF g, of "Object [(name, x)]"] by simp_all
  have 3: "fresh c h" and 4: "look h c = look (store st @ [Object [(name, x)]]) c"
    using good_setField [OF 1 _ _ h] inv_slot [OF assms(1), of opts key] good_fresh [OF g]
    by simp_all
  show ?thesis
    using inv_store [OF assms(1) 3] 2 4 st' by simp
qed

lemma inv_processPop:
  "walkInv c ob n st \<Longrightarrow> val \<noteq> Ref c \<Longrightarrow> processPop key val opts st = Inr st' \<Longrightarrow> walkInv c ob n st'"
  using inv_wrap [of c ob n st val "''exit''" opts "KStr ''pop''" st']
  by (auto simp: processPop_def split: if_splits)

lemma inv_processPush:
  "walkInv c ob n st \<Longrightarrow> val \<noteq> Ref c \<Longrightarrow> processPush key val opts st = Inr st' \<Longrightarrow> walkInv c ob n st'"
  using inv_wrap [of c ob n st val "''enter''" opts "KStr ''push''" st']
  by (auto simp: processPush_def split: if_splits)

lemma inv_processAnimation:
  assumes "walkInv c ob n st" and "opts \<noteq> c" and "val \<noteq> Ref c"
    and "processAnimation key val opts st = Inr st'"
  shows "walkInv c ob n st'"
proof -
  from assms(4) obtain st1 st2 where 1: "processPush key val opts st = Inr st1"
    and 2: "processPop key val opts st1 = Inr st2"
    and 3: "st' = processSetStackRoot key val opts st2"
    unfolding processAnimation_def by (auto dest!: bindE_Inr)
  have "walkInv c ob n st2"
    using inv_processPop [OF inv_processPush [OF assms(1,3) 1] assms(3) 2] .
  then show ?thesis
    using inv_processSetStackRoot assms(2,3) 3 by simp
qed


lemma inv_look: "walkInv c ob n st \<Longrightarrow> look (store st) c = ob"
  by (simp add: walkInv_def)

lemma inv_standardHook:
  assumes "walkInv c ob n st"
  shows "walkInv c ob n (standardHook cmd key (Ref c) st)"
proof -
  have "walkInv c ob n (emit (OnProcessOptions key (Ref c) cmd (store st)) st)"
    using assms inv_look [OF assms] by (simp add: inv_emit)
  then show ?thesis
    using inv_look [OF assms] by (simp add: standardHook_def inv_emit)
qed

lemma inv_defaultHook:
  assumes "walkInv c ob n st"
  shows "walkInv c ob n (defaultHook key (Ref c) st)"
  using assms inv_look [OF assms] by (simp add: defaultHook_def inv_emit)

lemma inv_visit:
  assumes "walkInv c ob n st" and "opts \<noteq> c" and "safeServices c sv"
    and hook: "\<And>k s. walkInv c ob n s \<Longrightarrow> walkInv c ob n (onProcess k (Ref c) s)"
    and rec: "\<And>child path s s'. child \<noteq> c \<Longrightarrow> walkInv c ob n s \<Longrightarrow>
                recurse child (Ref c) path s = Inr s' \<Longrightarrow> walkInv c ob n s'"
    and "visit recurse sv onProcess cmd opts (Ref c) parentPath key st = Inr st'"
  shows "walkInv c ob n st'"
proof -
  let ?val = "slot (store st) opts key"
  let ?path = "resolveObjectPath key parentPath"
  let ?st2 = "processColor sv key ?val opts
                (processWithRegisteredProcessor sv key ?val opts ?path cmd st)"
  have val: "?val \<noteq> Ref c"
    using inv_slot [OF assms(1)] .
  have i2: "walkInv c ob n ?st2"
    using inv_processColor [OF inv_registry [OF assms(1,2,3) val] assms(2,3) val] .
  show ?thesis
  proof (cases "truthy ?val")
    case False
    then show ?thesis
      using assms(6) i2 by (simp add: visit_falsy_value)
  next
    case True
    with assms(6) obtain st3 st4 st5 where
      3: "processComponent sv key ?val opts ?st2 = Inr st3"
      and 4: "processButtonsPassProps key ?val (processImage sv key ?val opts st3) = Inr st4"
      and 5: "processAnimation key ?val opts
                (processInterpolation key ?val opts (processSearchBar key ?val opts st4)) = Inr st5"
      and 6: "(case slot (store (onProcess key (Ref c) st5)) opts key of
                 Ref child \<Rightarrow>
                   if key \<noteq> KStr ''passProps''
                   then recurse child (Ref c) (Some ?path) (onProcess key (Ref c) st5)
                   else Inr (onProcess key (Ref c) st5)
               | _ \<Rightarrow> Inr (onProcess key (Ref c) st5)) = Inr st'"
      unfolding visit_def Let_def by (auto dest!: bindE_Inr)
    have i3: "walkInv c ob n st3"
      using inv_processComponent [OF i2 val 3] .
    have i4: "walkInv c ob n st4"
      using inv_processButtonsPassProps [OF inv_processImage [OF i3 assms(2,3) val] 4] .
    have i5: "walkInv c ob n st5"
      using inv_processAnimation
        [OF inv_processInterpolation [OF inv_processSearchBar [OF i4 assms(2)] assms(2)]
          assms(2) val 5] .
    have i6: "walkInv c ob n (onProcess key (Ref c) st5)"
      using hook [OF i5] .
    show ?thesis
    proof (cases "slot (store (onProcess key (Ref c) st5)) opts key")
      case (Ref child)
      have "child \<noteq> c"
        using inv_slot [OF i6, of opts key] Ref by simp
      then show ?thesis
        using 6 Ref rec [OF _ i6] i6 by (auto split: if_splits)
    qed (use 6 i6 in simp_all)
  qed
qed

lemma inv_forEachKey:
  assumes step: "\<And>k s s'. walkInv c ob n s \<Longrightarrow> f k s = Inr s' \<Longrightarrow> walkInv c ob n s'"
  shows "walkInv c ob n st \<Longrightarrow> forEachKey f ks st = Inr st' \<Longrightarrow> walkInv c ob n st'"
proof (induction ks arbitrary: st)
  case Nil
  then show ?case by simp
next
  case (Cons k ks)
  from Cons.prems(2) obtain s1 where 1: "f k st = Inr s1" and 2: "forEachKey f ks s1 = Inr st'"
    by (auto dest!: bindE_Inr)
  show ?case
    using Cons.IH [OF step [OF Cons.prems(1) 1] 2] .
qed

lemma inv_processObject:
  assumes "safeServices c sv"
    and hook: "\<And>k s. walkInv c ob n s \<Longrightarrow> walkInv c ob n (onProcess k (Ref c) s)"
  shows "walkInv c ob n st \<Longrightarrow> opts \<noteq> c \<Longrightarrow>
         processObject fuel sv onProcess cmd opts (Ref c) parentPath st = Inr st' \<Longrightarrow>
         walkInv c ob n st'"
proof (induction fuel arbitrary: st opts parentPath st')
  case 0
  then show ?case by simp
next
  case (Suc fuel)
  have step: "walkInv c ob n s \<Longrightarrow>
        visit (processObject fuel sv onProcess cmd) sv onProcess cmd opts (Ref c) parentPath k s
          = Inr s' \<Longrightarrow> walkInv c ob n s'" for k s s'
    using inv_visit [of c ob n s opts sv onProcess "processObject fuel sv onProcess cmd"
        cmd parentPath k s'] Suc.prems(2) assms(1) hook Suc.IH
    by blast
  show ?case
    using inv_forEachKey [of c ob n
        "visit (processObject fuel sv onProcess cmd) sv onProcess cmd opts (Ref c) parentPath",
        OF step Suc.prems(1)] Suc.prems(3)
    by simp
qed

lemma clone_values: "set (valuesOf (clone ob)) \<subseteq> insert Undefined (set (valuesOf ob))"
proof (cases ob)
  case (Object ps)
  then show ?thesis by auto
next
  case (Array es xs)
  then show ?thesis
    using lookupProp_in [of xs "''index''"] lookupProp_in [of xs "''input''"] by force
qed

lemma inv_initial:
  assumes "options < length (store st)" and "unreferenced (length (store st)) (store st)"
  shows "walkInv (length (store st)) (clone (look (store st) options)) (length (trace st))
           (st\<lparr>store := store st @ [clone (look (store st) options)]\<rparr>)"
proof -
  have "Ref (length (store st)) \<notin> set (valuesOf (look (store st) options))"
    using assms look_in [of "store st" options] by (auto simp: unreferenced_def)
  then have "Ref (length (store st)) \<notin> set (valuesOf (clone (look (store st) options)))"
    using clone_values [of "look (store st) options"] by auto
  then show ?thesis
    using assms(2) by (auto simp: walkInv_def fresh_def unreferenced_def look_append)
qed

text \<open>
  C3 (corrected). As stated the claim fails: the snapshot is a shallow \<^verbatim>\<open>clone\<close>, so
  the objects below its top-level entries are the objects of the live configuration, and
  a mutation of a nested node is visible through the snapshot to every later callback.
  What holds, for every walk of \<^verbatim>\<open>processOptions\<close> or \<^verbatim>\<open>processDefaultOptions\<close> that
  completes, on a store in which nothing refers to the address the snapshot takes and
  with collaborators that do not produce that address: whenever a deprecation hook is
  handed the snapshot, as the per-visit callback does for every key, the snapshot's own
  entries (its keys with the primitive values and the references they hold) are exactly
  those of the root before the walk, and so they are at the end of the walk.
\<close>

theorem snapshot_top_level_stable:
  assumes "options < length (store st)"
    and "unreferenced (length (store st)) (store st)"
    and "safeServices (length (store st)) sv"
    and "processOptions fuel sv options cmd st = Inr st' \<or>
         processDefaultOptions fuel sv options cmd st = Inr st'"
  shows "look (store st') (length (store st)) = clone (look (store st) options) \<and>
         (\<forall>e \<in> set (drop (length (trace st)) (trace st')).
            snapshotSeen (length (store st)) (clone (look (store st) options)) e)"
proof -
  let ?c = "length (store st)"
  let ?ob = "clone (look (store st) options)"
  let ?st1 = "st\<lparr>store := store st @ [?ob]\<rparr>"
  have i: "walkInv ?c ?ob (length (trace st)) ?st1"
    using inv_initial [OF assms(1,2)] .
  have ne: "options \<noteq> ?c"
    using assms(1) by simp
  have "walkInv ?c ?ob (length (trace st)) st'"
    using assms(4)
  proof
    assume "processOptions fuel sv options cmd st = Inr st'"
    then show ?thesis
      using inv_processObject [where onProcess = "standardHook cmd", OF assms(3) inv_standardHook i ne]
      by (simp add: processOptions_def)
  next
    assume "processDefaultOptions fuel sv options cmd st = Inr st'"
    then show ?thesis
      using inv_processObject [where onProcess = defaultHook, OF assms(3) inv_defaultHook i ne]
      by (simp add: processDefaultOptions_def)
  qed
  then show ?thesis
    by (simp add: walkInv_def)
qed

text \<open>The walk of \<^verbatim>\<open>{ a: { color: 'red' } }\<close>.\<close>

theorem snapshot_top_level_stable_witness:
  "(case processOptions 3 exServices 0 ''setRoot''
           (exState [Object [(''a'', Ref 1)], Object [(''color'', Str ''red'')]]) of
      Inl e \<Rightarrow> False
    | Inr st' \<Rightarrow>
        look (store st') 2 = Object [(''a'', Ref 1)] \<and>
        list_all (snapshotSeen 2 (Object [(''a'', Ref 1)])) (trace st'))"
proof -
  let ?st = "exState [Object [(''a'', Ref 1)], Object [(''color'', Str ''red'')]]"
  obtain st' where r: "processOptions 3 exServices 0 ''setRoot'' ?st = Inr st'"
    by (simp add: walk_defs eval_nat_numeral)
  have a: "0 < length (store ?st)"
    by (simp add: exState_def)
  have b: "unreferenced (length (store ?st)) (store ?st)"
    by (simp add: unreferenced_def exState_def)
  have c: "safeServices (length (store ?st)) exServices"
    by (simp add: safeServices_def exServices_def split: jsval.split)
  have "look (store st') 2 = Object [(''a'', Ref 1)] \<and>
        list_all (snapshotSeen 2 (Object [(''a'', Ref 1)])) (trace st')"
    using snapshot_top_level_stable [OF a b c disjI1 [OF r]]
    by (simp add: exState_def look_def list_all_iff numeral_2_eq_2)
  then show ?thesis
    by (simp only: r sum.case)
qed

text \<open>The same walk, with what each deprecation call could read from the snapshot: the
  callbacks for the key \<^verbatim>\<open>a\<close> see the colour \<^verbatim>\<open>'red'\<close>, the callbacks for the nested key
  \<^verbatim>\<open>color\<close>, made after the colour transform has written the nested node, see the
  resolved colour.\<close>

theorem snapshot_nested_counterexample:
  "map_sum id (\<lambda>st. List.map_filter (hookView 3) (trace st))
     (processOptions 3 exServices 0 ''setRoot''
        (exState [Object [(''a'', Ref 1)], Object [(''color'', Str ''red'')]])) =
   Inr [SObject [(''a'', SObject [(''color'', SStr ''red'')])],
        SObject [(''a'', SObject [(''color'', SStr ''red'')])],
        SObject [(''a'', SObject [(''color'', SStr ''native:red'')])],
        SObject [(''a'', SObject [(''color'', SStr ''native:red'')])]] \<and>
   shapeOf 3 [Object [(''a'', Ref 1)], Object [(''color'', Str ''red'')]] (Ref 0) =
     SObject [(''a'', SObject [(''color'', SStr ''red'')])]"
  by (simp add: walk_defs eval_nat_numeral)

end
